theory Spec2Isabelle
  imports Main "HOL-Library.Multiset" "HOL-Library.Char_ord" "HOL-Library.List_Lexorder"
begin

section \<open>Python built-ins used by fileseq.py\<close>

text \<open>
  fileseq.py is Python 2 code (\<^verbatim>\<open>raise IndexError, "..."\<close>, \<^verbatim>\<open>xrange\<close>, \<^verbatim>\<open>print s\<close>).
  File names are byte strings (\<open>string\<close>), numbers are Python's unbounded integers
  (\<open>int\<close>), and every exception the code can raise is a value of \<open>error\<close>.
\<close>

datatype error =
    IndexError
  | TypeError
  | ValueError
  | OverflowError
  | KeyError string
  | OSError
  | NotModelled

text \<open>
  \<^verbatim>\<open>sys.maxint\<close>, the largest C long, on an LP64 platform. \<^verbatim>\<open>xrange\<close> takes C longs only:
  an argument outside \<open>[-sys.maxint - 1, sys.maxint]\<close> raises OverflowError
  ("Python int too large to convert to C long"). A value of type \<^verbatim>\<open>int\<close> (as opposed to
  \<^verbatim>\<open>long\<close>) is one in that interval.
\<close>

definition sys_maxint :: int where
  "sys_maxint = 2 ^ 63 - 1"

definition fits_long :: "int \<Rightarrow> bool" where
  "fits_long n = (- sys_maxint - 1 \<le> n \<and> n \<le> sys_maxint)"

subsection \<open>Decimal digits, \<^verbatim>\<open>str\<close> and \<^verbatim>\<open>int\<close>\<close>

definition is_digit :: "char \<Rightarrow> bool" where
  "is_digit c = (48 \<le> (of_char c :: nat) \<and> (of_char c :: nat) \<le> 57)"

definition digit_value :: "char \<Rightarrow> nat" where
  "digit_value c = of_char c - 48"

definition digit_char :: "nat \<Rightarrow> char" where
  "digit_char d = char_of (48 + d)"

text \<open>\<^verbatim>\<open>str(n)\<close> for an integer: the minimal decimal form, with a minus sign when negative.\<close>

function str_nat :: "nat \<Rightarrow> string" where
  "str_nat n = (if n < 10 then [digit_char n] else str_nat (n div 10) @ [digit_char (n mod 10)])"
  by pat_completeness auto
termination
  by (relation "measure id") auto

definition str_int :: "int \<Rightarrow> string" where
  "str_int n = (if n < 0 then CHR ''-'' # str_nat (nat (- n)) else str_nat (nat n))"

text \<open>
  \<^verbatim>\<open>int(s)\<close> for a string of decimal digits (leading zeros allowed, base 10). The detector
  applies it to the digit runs of \<open>NUMBER_PATTERN\<close> only, which are such strings.
\<close>

definition int_of_digits :: "string \<Rightarrow> int" where
  "int_of_digits s = foldl (\<lambda>acc c. 10 * acc + int (digit_value c)) 0 s"

text \<open>
  \<^verbatim>\<open>s.zfill(width)\<close> as CPython computes it: a string at least \<open>width\<close> long is returned
  as it is; otherwise zeros are put in front and, when the string starts with a sign, the
  sign is moved to the front of the zeros.
\<close>

definition zfill :: "string \<Rightarrow> int \<Rightarrow> string" where
  "zfill s width =
     (if width \<le> int (length s) then s
      else
        let fill = nat (width - int (length s));
            p = replicate fill (CHR ''0'') @ s
        in if s \<noteq> [] \<and> (p ! fill = CHR ''+'' \<or> p ! fill = CHR ''-'')
           then (p[0 := p ! fill])[fill := CHR ''0'']
           else p)"

text \<open>
  The specification's \<open>zeroPad\<close>, written from its words: the decimal digits of the
  number, with zeros in front of them up to the width \<open>padding\<close>; a number whose own form
  is at least that long is left as it is, and so is every number when the width is 0. A
  negative number carries its minus sign first, and the sign takes one place of the width.
\<close>

definition zeroPad :: "int \<Rightarrow> int \<Rightarrow> string" where
  "zeroPad number width =
     (let sign = (if number < 0 then ''-'' else '''');
          digits = str_nat (nat \<bar>number\<bar>)
      in sign @ replicate (nat width - length sign - length digits) (CHR ''0'') @ digits)"

text \<open>\<^verbatim>\<open>s * n\<close> for a string and an integer: \<open>n\<close> copies, none when \<open>n \<le> 0\<close>.\<close>

definition str_mul :: "string \<Rightarrow> int \<Rightarrow> string" where
  "str_mul s n = concat (replicate (nat n) s)"

text \<open>\<^verbatim>\<open>range(start, stop, step)\<close>, a list in Python 2. A zero step is not used here.\<close>

function py_range :: "int \<Rightarrow> int \<Rightarrow> int \<Rightarrow> int list" where
  "py_range start stop step =
     (if (0 < step \<and> start < stop) \<or> (step < 0 \<and> stop < start)
      then start # py_range (start + step) stop step
      else [])"
  by pat_completeness auto
termination
  by (relation "measure (\<lambda>(start, stop, step). nat (if 0 < step then stop - start else start - stop))")
     auto

section \<open>The class FileSequence\<close>

record FileSequence =
  path :: string
  head :: string
  tail :: string
  first :: int
  last_num :: int
  padding :: int

text \<open>\<^verbatim>\<open>__init__\<close>: the \<open>path\<close> argument is not stored; \<^verbatim>\<open>self.path = ""\<close>.\<close>

definition init :: "string \<Rightarrow> string \<Rightarrow> string \<Rightarrow> int \<Rightarrow> int \<Rightarrow> int \<Rightarrow> FileSequence" where
  "init path_arg head_arg tail_arg first_arg last_arg padding_arg =
     \<lparr>path = '''', head = head_arg, tail = tail_arg,
      first = first_arg, last_num = last_arg, padding = padding_arg\<rparr>"

text \<open>\<^verbatim>\<open>__len__\<close>\<close>

definition len :: "FileSequence \<Rightarrow> int" where
  "len self = (last_num self - first self) + 1"

text \<open>
  The truth value of a FileSequence (\<^verbatim>\<open>if sequence:\<close>). FileSequence is an old-style
  class with \<^verbatim>\<open>__len__\<close> and no \<^verbatim>\<open>__nonzero__\<close>, so the interpreter calls \<^verbatim>\<open>__len__\<close>:
  a result that is not an \<^verbatim>\<open>int\<close> raises TypeError, a negative one ValueError.
\<close>

definition nonzero :: "FileSequence \<Rightarrow> error + bool" where
  "nonzero self =
     (let res = len self
      in if \<not> fits_long res then Inl TypeError
         else if res < 0 then Inl ValueError
         else Inr (0 < res))"

text \<open>
  The built-in \<^verbatim>\<open>len(self)\<close>: it calls \<^verbatim>\<open>__len__\<close> and, like the truth test, raises TypeError
  for a result that is not an \<^verbatim>\<open>int\<close> and ValueError for a negative one.
\<close>

definition len_builtin :: "FileSequence \<Rightarrow> error + int" where
  "len_builtin self =
     (let res = len self
      in if \<not> fits_long res then Inl TypeError
         else if res < 0 then Inl ValueError
         else Inr res)"

text \<open>\<^verbatim>\<open>filename\<close>\<close>

definition filename :: "FileSequence \<Rightarrow> int \<Rightarrow> error + string" where
  "filename self number =
     (if first self \<le> number \<and> number \<le> last_num self
      then Inr (concat [head self, zfill (str_int number) (padding self), tail self])
      else Inl IndexError)"

text \<open>
  \<^verbatim>\<open>__iter__\<close>: the generator yields \<open>filename n\<close> for \<open>n\<close> in
  \<^verbatim>\<open>range(self.first, self.last + 1)\<close>; \<open>collect\<close> is what consuming it gives, the names
  in order or the first exception.
\<close>

fun collect :: "(error + 'a) list \<Rightarrow> error + 'a list" where
  "collect [] = Inr []"
| "collect (Inl e # rs) = Inl e"
| "collect (Inr x # rs) = (case collect rs of Inl e \<Rightarrow> Inl e | Inr xs \<Rightarrow> Inr (x # xs))"

definition iter :: "FileSequence \<Rightarrow> error + string list" where
  "iter self = collect (map (filename self) (py_range (first self) (last_num self + 1) 1))"



subsection \<open>\<^verbatim>\<open>format\<close>\<close>

text \<open>
  The dictionary \<open>values\<close> of \<^verbatim>\<open>format\<close>, given the value of \<^verbatim>\<open>len(self)\<close>: the values handed
  to \<^verbatim>\<open>template.format\<close> are strings and integers.
\<close>

datatype pyval = VStr string | VInt int

fun str_val :: "pyval \<Rightarrow> string" where
  "str_val (VStr s) = s"
| "str_val (VInt n) = str_int n"

definition format_values :: "FileSequence \<Rightarrow> int \<Rightarrow> string \<Rightarrow> (string \<times> pyval) list" where
  "format_values self length_value padchar =
     [(''head'', VStr (head self)),
      (''tail'', VStr (tail self)),
      (''first'', VInt (first self)),
      (''last'', VInt (last_num self)),
      (''length'', VInt length_value),
      (''padding'', VInt (padding self)),
      (''padchars'', VStr (if str_mul padchar (padding self) \<noteq> [] then str_mul padchar (padding self)
                          else padchar)),
      (''range'', VStr (str_int (first self) @ ''-'' @ str_int (last_num self))),
      (''path'', VStr (path self))]"

text \<open>
  \<^verbatim>\<open>str.format(**values)\<close> for templates made of literal text, the escapes \<^verbatim>\<open>{{\<close> and \<^verbatim>\<open>}}\<close>,
  and replacement fields \<^verbatim>\<open>{name}\<close>: an unknown name raises KeyError, an empty or numeric
  name IndexError (there are no positional arguments; a number too large for an index
  raises ValueError instead), an unclosed field or a single \<^verbatim>\<open>}\<close> ValueError. Conversions, format specifications, attribute and index lookups
  (a field containing one of \<^verbatim>\<open>! : . [ {\<close>) are outside this model, which answers
  \<open>NotModelled\<close> for them.
\<close>

definition lookup_field :: "(string \<times> pyval) list \<Rightarrow> string \<Rightarrow> error + string" where
  "lookup_field values name =
     (if \<exists>c \<in> set name. c \<in> set ''!:.[{'' then Inl NotModelled
      else if list_all is_digit name
           then (if sys_maxint < int_of_digits name then Inl ValueError else Inl IndexError)
      else case map_of values name of
             None \<Rightarrow> Inl (KeyError name)
           | Some v \<Rightarrow> Inr (str_val v))"

function str_format :: "string \<Rightarrow> (string \<times> pyval) list \<Rightarrow> error + string" where
  "str_format [] values = Inr []"
| "str_format (c # cs) values =
     (if c = CHR ''{'' then
        (if cs \<noteq> [] \<and> hd cs = CHR ''{''
         then (case str_format (tl cs) values of Inl e \<Rightarrow> Inl e | Inr r \<Rightarrow> Inr (CHR ''{'' # r))
         else
           let name = takeWhile (\<lambda>x. x \<noteq> CHR ''}'') cs;
               rest = dropWhile (\<lambda>x. x \<noteq> CHR ''}'') cs
           in if rest = [] then Inl ValueError
              else case lookup_field values name of
                     Inl e \<Rightarrow> Inl e
                   | Inr v \<Rightarrow> (case str_format (tl rest) values of
                                Inl e \<Rightarrow> Inl e
                              | Inr r \<Rightarrow> Inr (v @ r)))
      else if c = CHR ''}'' then
        (if cs \<noteq> [] \<and> hd cs = CHR ''}''
         then (case str_format (tl cs) values of Inl e \<Rightarrow> Inl e | Inr r \<Rightarrow> Inr (CHR ''}'' # r))
         else Inl ValueError)
      else (case str_format cs values of Inl e \<Rightarrow> Inl e | Inr r \<Rightarrow> Inr (c # r)))"
  by pat_completeness auto
termination
proof (relation "measure (\<lambda>(t, vs). length t)")
  fix c :: char and cs :: string and vs :: "(string \<times> pyval) list" and field rest :: string
  assume "rest = dropWhile (\<lambda>x. x \<noteq> CHR ''}'') cs" and "rest \<noteq> []"
  moreover have "length (dropWhile (\<lambda>x. x \<noteq> CHR ''}'') cs) \<le> length cs"
    by (rule length_dropWhile_le)
  ultimately show "((tl rest, vs), c # cs, vs) \<in> measure (\<lambda>(t, vs). length t)"
    by (cases rest) auto
qed auto

text \<open>The default arguments of \<^verbatim>\<open>format\<close>; \<open>None\<close> stands for an argument left out.\<close>

definition default_template :: string where
  "default_template = ''{head}%0{padding}d{tail}''"

definition default_padchar :: string where
  "default_padchar = ''#''"

definition format :: "FileSequence \<Rightarrow> string option \<Rightarrow> string option \<Rightarrow> error + string" where
  "format self template padchar =
     (case len_builtin self of
        Inl e \<Rightarrow> Inl e
      | Inr length_value \<Rightarrow>
          str_format (case template of None \<Rightarrow> default_template | Some t \<Rightarrow> t)
            (format_values self length_value
               (case padchar of None \<Rightarrow> default_padchar | Some p \<Rightarrow> p)))"

text \<open>Literal template text: no brace in it.\<close>

definition plain :: "string \<Rightarrow> bool" where
  "plain t = (CHR ''{'' \<notin> set t \<and> CHR ''}'' \<notin> set t)"

section \<open>The detector\<close>

text \<open>
  \<^verbatim>\<open>NUMBER_PATTERN.split(entry)\<close> with \<^verbatim>\<open>NUMBER_PATTERN = re.compile("([0-9]+)")\<close>: the
  text before the first maximal run of digits, the run, the text between it and the next
  run, and so on, ending with the text after the last run. Literal pieces may be empty at
  both ends; digit runs stand at the odd positions.
\<close>

function NUMBER_PATTERN_split :: "string \<Rightarrow> string list" where
  "NUMBER_PATTERN_split s =
     (let literal = takeWhile (\<lambda>c. \<not> is_digit c) s;
          rest = dropWhile (\<lambda>c. \<not> is_digit c) s
      in if rest = [] then [literal]
         else literal # takeWhile is_digit rest # NUMBER_PATTERN_split (dropWhile is_digit rest))"
  by pat_completeness auto
termination
proof (relation "measure length")
  fix s literal rest :: string
  assume rest: "rest = dropWhile (\<lambda>c. \<not> is_digit c) s" and ne: "rest \<noteq> []"
  from ne obtain c cs where cs: "rest = c # cs"
    by (cases rest) auto
  have "is_digit c"
    using dropWhile_eq_Cons_conv [of "\<lambda>c. \<not> is_digit c" s c cs] rest cs by simp
  then have "length (dropWhile is_digit rest) \<le> length cs"
    using cs by (simp add: length_dropWhile_le)
  moreover have "length rest \<le> length s"
    using rest by (simp add: length_dropWhile_le)
  ultimately show "(dropWhile is_digit rest, s) \<in> measure length"
    using cs by simp
qed simp

text \<open>\<^verbatim>\<open>s.startswith(prefix)\<close>\<close>

definition startswith :: "string \<Rightarrow> string \<Rightarrow> bool" where
  "startswith s prefix = (take (length prefix) s = prefix)"

text \<open>
  The name the generator \<^verbatim>\<open>adjacent_files\<close> yields for the number \<open>n\<close>: the components
  with the one at \<open>index\<close> replaced by \<^verbatim>\<open>str(n).zfill(padding)\<close>, joined.
\<close>

definition adjacent_file :: "string list \<Rightarrow> nat \<Rightarrow> int \<Rightarrow> int \<Rightarrow> string" where
  "adjacent_file components index padding' n =
     concat (components[index := zfill (str_int n) padding'])"

text \<open>
  The loop over \<^verbatim>\<open>adjacent_files(components, i, padding)\<close>, which runs \<open>n\<close> through
  \<^verbatim>\<open>xrange(number + 1, number + len(entries) + 1)\<close>: a name found in \<open>entries\<close> is removed
  (\<^verbatim>\<open>entries.remove\<close> takes out the first occurrence) and becomes the upper bound; the
  first miss ends the loop. The bound \<open>stop\<close> is fixed when the generator starts.
\<close>

function scan_forward ::
  "string list \<Rightarrow> nat \<Rightarrow> int \<Rightarrow> int \<Rightarrow> int \<Rightarrow> string list \<Rightarrow> int \<Rightarrow> string list \<times> int" where
  "scan_forward components index padding' n stop entries last_found =
     (if n < stop then
        (if adjacent_file components index padding' n \<in> set entries
         then scan_forward components index padding' (n + 1) stop
                (remove1 (adjacent_file components index padding' n) entries) n
         else (entries, last_found))
      else (entries, last_found))"
  by pat_completeness auto
termination
  by (relation "measure (\<lambda>(components, index, padding', n, stop, entries, last_found). nat (stop - n))")
     auto

text \<open>
  The loop over \<^verbatim>\<open>adjacent_files(components, i, padding, reverse=True)\<close>, which runs \<open>n\<close>
  through \<^verbatim>\<open>xrange(number - 1, 0, -1)\<close>, down to 1.
\<close>

function scan_reverse ::
  "string list \<Rightarrow> nat \<Rightarrow> int \<Rightarrow> int \<Rightarrow> string list \<Rightarrow> int \<Rightarrow> string list \<times> int" where
  "scan_reverse components index padding' n entries first_found =
     (if 0 < n then
        (if adjacent_file components index padding' n \<in> set entries
         then scan_reverse components index padding' (n - 1)
                (remove1 (adjacent_file components index padding' n) entries) n
         else (entries, first_found))
      else (entries, first_found))"
  by pat_completeness auto
termination
  by (relation "measure (\<lambda>(components, index, padding', n, entries, first_found). nat n)") auto

text \<open>
  The body of \<^verbatim>\<open>for i in range(len(components) - 2, 0, -2)\<close>, over the list of indices
  still to try. The result is the value of \<open>sequence\<close> after the loop, or the exception,
  together with the list \<open>entries\<close> as the loop leaves it.
\<close>

fun try_fields ::
  "string list \<Rightarrow> int list \<Rightarrow> string list \<Rightarrow> (error + FileSequence option) \<times> string list" where
  "try_fields components [] entries = (Inr None, entries)"
| "try_fields components (i # indices) entries =
     (let number = int_of_digits (components ! nat i);
          padding' = (if startswith (components ! nat i) ''0''
                     then int (length (components ! nat i)) else 0)
      in if \<not> (fits_long (number + 1) \<and> fits_long (number + int (length entries) + 1))
         then (Inl OverflowError, entries)
         else
           let (entries1, last') =
                 scan_forward components (nat i) padding' (number + 1)
                   (number + int (length entries) + 1) entries number
           in if \<not> (fits_long (number - 1) \<and> fits_long 0 \<and> fits_long (- 1))
              then (Inl OverflowError, entries1)
              else
                let (entries2, first') =
                      scan_reverse components (nat i) padding' (number - 1) entries1 number
                in if first' - last' \<noteq> 0
                   then (Inr (Some (init '''' (concat (take (nat i) components))
                                      (concat (drop (nat i + 1) components))
                                      first' last' padding')),
                         entries2)
                   else try_fields components indices entries2)"


section \<open>Termination of the detector\<close>

declare str_nat.simps [simp del] py_range.simps [simp del] NUMBER_PATTERN_split.simps [simp del]
  scan_forward.simps [simp del] scan_reverse.simps [simp del]

lemma scan_forward_length:
  "length (fst (scan_forward c i p n stop E l)) \<le> length E"
proof (induction c i p n stop E l rule: scan_forward.induct)
  case (1 c i p n stop E l)
  show ?case
  proof (cases "n < stop \<and> adjacent_file c i p n \<in> set E")
    case True
    then have "length (fst (scan_forward c i p (n + 1) stop (remove1 (adjacent_file c i p n) E) n))
               \<le> length (remove1 (adjacent_file c i p n) E)"
      using "1.IH" by simp
    also have "\<dots> \<le> length E"
      by (simp add: length_remove1)
    finally show ?thesis
      using True by (subst scan_forward.simps) simp
  next
    case False
    then show ?thesis
      by (subst scan_forward.simps) auto
  qed
qed

lemma scan_reverse_length:
  "length (fst (scan_reverse c i p n E f)) \<le> length E"
proof (induction c i p n E f rule: scan_reverse.induct)
  case (1 c i p n E f)
  show ?case
  proof (cases "0 < n \<and> adjacent_file c i p n \<in> set E")
    case True
    then have "length (fst (scan_reverse c i p (n - 1) (remove1 (adjacent_file c i p n) E) n))
               \<le> length (remove1 (adjacent_file c i p n) E)"
      using "1.IH" by simp
    also have "\<dots> \<le> length E"
      by (simp add: length_remove1)
    finally show ?thesis
      using True by (subst scan_reverse.simps) simp
  next
    case False
    then show ?thesis
      by (subst scan_reverse.simps) auto
  qed
qed

lemma try_fields_length:
  "length (snd (try_fields c indices E)) \<le> length E"
proof (induction indices arbitrary: E)
  case Nil
  show ?case by simp
next
  case (Cons i indices)
  define num where "num = int_of_digits (c ! nat i)"
  define pad where "pad = (if startswith (c ! nat i) ''0'' then int (length (c ! nat i)) else 0)"
  obtain E1 l where fw:
    "scan_forward c (nat i) pad (num + 1) (num + int (length E) + 1) E num = (E1, l)"
    by (cases "scan_forward c (nat i) pad (num + 1) (num + int (length E) + 1) E num") auto
  obtain E2 f where bw: "scan_reverse c (nat i) pad (num - 1) E1 num = (E2, f)"
    by (cases "scan_reverse c (nat i) pad (num - 1) E1 num") auto
  have 1: "length E1 \<le> length E"
    using scan_forward_length [of c "nat i" pad "num + 1" "num + int (length E) + 1" E num] fw
    by simp
  have 2: "length E2 \<le> length E1"
    using scan_reverse_length [of c "nat i" pad "num - 1" E1 num] bw by simp
  have 3: "length (snd (try_fields c indices E2)) \<le> length E2"
    by (rule Cons.IH)
  show ?case
    using fw bw 1 2 3 by (simp add: Let_def num_def [symmetric] pad_def [symmetric])
qed

lemma try_fields_shrinks:
  "(r, E') = try_fields c indices E \<Longrightarrow> length E' < Suc (length E)"
  using try_fields_length [of c indices E] by (cases "try_fields c indices E") auto

text \<open>
  The loop \<^verbatim>\<open>while entries:\<close>. Each round pops the first entry, tries its numeric fields
  against the remaining entries, and appends either the sequence found or the entry. The
  second component of the result is the list object \<open>entries\<close> as the call leaves it: the
  caller's list, which the code sorts and consumes in place.
\<close>

function find_loop ::
  "string list \<Rightarrow> FileSequence list \<Rightarrow> string list
   \<Rightarrow> (error + FileSequence list \<times> string list) \<times> string list" where
  "find_loop [] sequences other_files = (Inr (sequences, other_files), [])"
| "find_loop (entry # entries) sequences other_files =
     (case try_fields (NUMBER_PATTERN_split entry)
             (py_range (int (length (NUMBER_PATTERN_split entry)) - 2) 0 (- 2)) entries of
        (Inl e, entries') \<Rightarrow> (Inl e, entries')
      | (Inr None, entries') \<Rightarrow> find_loop entries' sequences (other_files @ [entry])
      | (Inr (Some sequence), entries') \<Rightarrow>
          (case nonzero sequence of
             Inl e \<Rightarrow> (Inl e, entries')
           | Inr True \<Rightarrow> find_loop entries' (sequences @ [sequence]) other_files
           | Inr False \<Rightarrow> find_loop entries' sequences (other_files @ [entry])))"
  by pat_completeness auto
termination
  by (relation "measure (\<lambda>(entries, sequences, other_files). length entries)")
     (auto dest: try_fields_shrinks)

text \<open>\<^verbatim>\<open>find_in_list\<close>: \<^verbatim>\<open>entries.sort()\<close>, then the loop.\<close>

definition find_in_list ::
  "string list \<Rightarrow> (error + FileSequence list \<times> string list) \<times> string list" where
  "find_in_list entries = find_loop (sort entries) [] []"

text \<open>
  \<^verbatim>\<open>find\<close>: the directory listing \<^verbatim>\<open>os.listdir\<close> is a parameter; every sequence found gets
  \<open>search_path\<close> as its path.
\<close>

definition find_seqs ::
  "(string \<Rightarrow> error + string list) \<Rightarrow> string
   \<Rightarrow> error + FileSequence list \<times> string list" where
  "find_seqs listdir search_path =
     (case listdir search_path of
        Inl e \<Rightarrow> Inl e
      | Inr names \<Rightarrow>
          (case fst (find_in_list names) of
             Inl e \<Rightarrow> Inl e
           | Inr (sequences, other_files) \<Rightarrow>
               Inr (map (\<lambda>sequence. sequence\<lparr>path := search_path\<rparr>) sequences, other_files)))"

section \<open>Notions used in the proofs\<close>

text \<open>
  \<open>try_entry entry entries\<close> is what one round of the loop computes for the entry popped:
  the numeric fields of \<open>entry\<close>, last one first, tried against the remaining entries.
\<close>

abbreviation try_entry :: "string \<Rightarrow> string list \<Rightarrow> (error + FileSequence option) \<times> string list" where
  "try_entry entry entries \<equiv>
     try_fields (NUMBER_PATTERN_split entry)
       (py_range (int (length (NUMBER_PATTERN_split entry)) - 2) 0 (- 2)) entries"

text \<open>A digit run: a non-empty string of decimal digits.\<close>

definition digit_run :: "string \<Rightarrow> bool" where
  "digit_run d = (d \<noteq> [] \<and> list_all is_digit d)"

text \<open>The numeric fields of a list of components: the odd positions hold digit runs.\<close>

definition fields_ok :: "string list \<Rightarrow> bool" where
  "fields_ok c = (odd (length c) \<and> (\<forall>i < length c. odd i \<longrightarrow> digit_run (c ! i)))"

text \<open>The indices the detector tries are numeric fields of the components.\<close>

definition field_of :: "string list \<Rightarrow> int \<Rightarrow> bool" where
  "field_of c i = (0 < i \<and> nat i < length c \<and> digit_run (c ! nat i))"

text \<open>What the detector reads from the numeric field at position \<open>k\<close>.\<close>

definition field_number :: "string list \<Rightarrow> nat \<Rightarrow> int" where
  "field_number c k = int_of_digits (c ! k)"

definition field_padding :: "string list \<Rightarrow> nat \<Rightarrow> int" where
  "field_padding c k = (if startswith (c ! k) ''0'' then int (length (c ! k)) else 0)"

text \<open>The two scans of one field: the entries left, the lower and the upper bound.\<close>

definition try_field :: "string list \<Rightarrow> nat \<Rightarrow> string list \<Rightarrow> string list \<times> int \<times> int" where
  "try_field c k E =
     (let (E1, l) = scan_forward c k (field_padding c k) (field_number c k + 1)
                      (field_number c k + int (length E) + 1) E (field_number c k);
          (E2, f) = scan_reverse c k (field_padding c k) (field_number c k - 1) E1
                      (field_number c k)
      in (E2, f, l))"

text \<open>The file names of a sequence, in order.\<close>

definition filenames :: "FileSequence \<Rightarrow> string list" where
  "filenames s =
     map (\<lambda>n. head s @ zfill (str_int n) (padding s) @ tail s) [first s..last_num s]"

text \<open>A sequence that one round of the loop finds, for the first entry of a sorted list.\<close>

definition detected :: "FileSequence \<Rightarrow> bool" where
  "detected s = (\<exists>e P P2. sorted (e # P) \<and> try_entry e P = (Inr (Some s), P2))"

text \<open>
  Names whose numbers leave room: every digit run of the name, read as a number, stays
  below \<^verbatim>\<open>sys.maxint\<close> after adding \<open>n\<close>, the number of names.
\<close>

definition small_numbers :: "nat \<Rightarrow> string \<Rightarrow> bool" where
  "small_numbers n entry =
     (\<forall>i < length (NUMBER_PATTERN_split entry).
        odd i \<longrightarrow> int_of_digits (NUMBER_PATTERN_split entry ! i) + int n < sys_maxint)"

section \<open>An invariant rule for the main loop\<close>

text \<open>
  A property that holds at the start and that every round preserves holds when the loop
  ends without an exception; the list of entries is empty then.
\<close>

lemma find_loop_invariant:
  assumes run: "find_loop E s0 o0 = (Inr (s', o'), E')"
    and init: "I E s0 o0"
    and none: "\<And>entry entries s ot E1.
        I (entry # entries) s ot \<Longrightarrow> try_entry entry entries = (Inr None, E1)
        \<Longrightarrow> I E1 s (ot @ [entry])"
    and some: "\<And>entry entries s ot E1 q.
        I (entry # entries) s ot \<Longrightarrow> try_entry entry entries = (Inr (Some q), E1)
        \<Longrightarrow> nonzero q = Inr True \<Longrightarrow> I E1 (s @ [q]) ot"
    and empty: "\<And>entry entries s ot E1 q.
        I (entry # entries) s ot \<Longrightarrow> try_entry entry entries = (Inr (Some q), E1)
        \<Longrightarrow> nonzero q = Inr False \<Longrightarrow> I E1 s (ot @ [entry])"
  shows "I [] s' o' \<and> E' = []"
  using run init
proof (induction E s0 o0 rule: find_loop.induct)
  case (1 sequences other_files)
  then show ?case by simp
next
  case (2 entry entries sequences other_files)
  obtain r E1 where tf: "try_entry entry entries = (r, E1)"
    by (cases "try_entry entry entries") auto
  show ?case
  proof (cases r)
    case (Inl e)
    with tf "2.prems" show ?thesis by simp
  next
    case (Inr found)
    show ?thesis
    proof (cases found)
      case None
      have "I E1 sequences (other_files @ [entry])"
        using none [OF "2.prems"(2)] tf Inr None by simp
      moreover have "find_loop E1 sequences (other_files @ [entry]) = (Inr (s', o'), E')"
        using "2.prems"(1) tf Inr None by simp
      ultimately show ?thesis
        using "2.IH"(1) [of r E1 found] tf Inr None by simp
    next
      case (Some q)
      show ?thesis
      proof (cases "nonzero q")
        case (Inl e)
        with tf Inr Some "2.prems" show ?thesis by simp
      next
        case nz: (Inr b)
        show ?thesis
        proof (cases b)
          case True
          have "I E1 (sequences @ [q]) other_files"
            using some [OF "2.prems"(2)] tf Inr Some nz True by simp
          moreover have "find_loop E1 (sequences @ [q]) other_files = (Inr (s', o'), E')"
            using "2.prems"(1) tf Inr Some nz True by simp
          ultimately show ?thesis
            using "2.IH"(2) [of r E1 found q b] tf Inr Some nz True by simp
        next
          case False
          have "I E1 sequences (other_files @ [entry])"
            using empty [OF "2.prems"(2)] tf Inr Some nz False by simp
          moreover have "find_loop E1 sequences (other_files @ [entry]) = (Inr (s', o'), E')"
            using "2.prems"(1) tf Inr Some nz False by simp
          ultimately show ?thesis
            using "2.IH"(3) [of r E1 found q b] tf Inr Some nz False by simp
        qed
      qed
    qed
  qed
qed

section \<open>Decimal strings\<close>

lemma is_digit_digit_char: "d < 10 \<Longrightarrow> is_digit (digit_char d)"
  by (simp add: is_digit_def digit_char_def)

lemma digit_value_digit_char: "d < 10 \<Longrightarrow> digit_value (digit_char d) = d"
  by (simp add: digit_value_def digit_char_def)

lemma digit_char_digit_value: "is_digit c \<Longrightarrow> digit_char (digit_value c) = c"
  by (simp add: is_digit_def digit_char_def digit_value_def)

lemma digit_value_less: "is_digit c \<Longrightarrow> digit_value c < 10"
  by (auto simp: is_digit_def digit_value_def)

lemma str_nat_digits: "list_all is_digit (str_nat n)"
proof (induction n rule: str_nat.induct)
  case (1 n)
  show ?case
  proof (cases "n < 10")
    case True
    then show ?thesis
      by (subst str_nat.simps) (simp add: is_digit_digit_char)
  next
    case False
    then show ?thesis
      using "1.IH" by (subst str_nat.simps) (simp add: is_digit_digit_char)
  qed
qed

lemma str_nat_not_empty: "str_nat n \<noteq> []"
  by (subst str_nat.simps) simp

lemma hd_str_nat_digit: "is_digit (hd (str_nat n))"
  using str_nat_digits [of n] str_nat_not_empty [of n]
  by (cases "str_nat n") simp_all

lemma sign_not_digit: "is_digit c \<Longrightarrow> c \<noteq> CHR ''+'' \<and> c \<noteq> CHR ''-''"
  by (auto simp: is_digit_def)

lemma zfill_unsigned:
  assumes "s \<noteq> []" and "hd s \<noteq> CHR ''+''" and "hd s \<noteq> CHR ''-''"
  shows "zfill s width = replicate (nat width - length s) (CHR ''0'') @ s"
proof (cases "width \<le> int (length s)")
  case True
  then show ?thesis by (simp add: zfill_def)
next
  case False
  then have fill: "nat (width - int (length s)) = nat width - length s"
    by linarith
  have "(replicate (nat width - length s) (CHR ''0'') @ s) ! (nat width - length s) = hd s"
    using assms(1) by (simp add: nth_append hd_conv_nth)
  then show ?thesis
    using False assms fill by (simp add: zfill_def Let_def)
qed

lemma move_sign:
  "0 < k \<Longrightarrow>
   ((replicate k z @ c # ds)[0 := c])[k := z] = c # replicate k z @ ds"
proof (induction k)
  case 0
  then show ?case by simp
next
  case (Suc k)
  have "((replicate k z @ c # ds))[k := z] = replicate k z @ z # ds"
    by (simp add: list_update_append)
  then show ?case
    by (simp add: replicate_app_Cons_same)
qed

lemma zfill_minus:
  "zfill (CHR ''-'' # ds) width = CHR ''-'' # replicate (nat width - Suc (length ds)) (CHR ''0'') @ ds"
proof (cases "width \<le> int (length (CHR ''-'' # ds))")
  case True
  then show ?thesis by (simp add: zfill_def)
next
  case False
  define k where "k = nat (width - int (length (CHR ''-'' # ds)))"
  have k0: "0 < k"
    using False by (simp add: k_def)
  have k2: "k = nat width - Suc (length ds)"
    by (simp add: k_def)
  have nth: "(replicate k (CHR ''0'') @ CHR ''-'' # ds) ! k = CHR ''-''"
    by (simp add: nth_append)
  have "zfill (CHR ''-'' # ds) width
        = ((replicate k (CHR ''0'') @ CHR ''-'' # ds)[0 := CHR ''-''])[k := CHR ''0'']"
    unfolding zfill_def Let_def k_def [symmetric] using False nth by simp
  also have "\<dots> = CHR ''-'' # replicate k (CHR ''0'') @ ds"
    by (rule move_sign [OF k0])
  finally show ?thesis
    by (simp add: k2)
qed

lemma zfill_str_int: "zfill (str_int number) width = zeroPad number width"
proof (cases "number < 0")
  case True
  then show ?thesis
    by (simp add: str_int_def zeroPad_def zfill_minus abs_if Let_def)
next
  case False
  have "zfill (str_nat (nat number)) width
        = replicate (nat width - length (str_nat (nat number))) (CHR ''0'') @ str_nat (nat number)"
    using hd_str_nat_digit [of "nat number"] sign_not_digit str_nat_not_empty
    by (intro zfill_unsigned) auto
  then show ?thesis
    using False by (simp add: str_int_def zeroPad_def Let_def)
qed

section \<open>Digit runs and their numbers\<close>

lemma int_of_digits_snoc:
  "int_of_digits (s @ [c]) = 10 * int_of_digits s + int (digit_value c)"
  by (simp add: int_of_digits_def)

lemma int_of_digits_nonneg: "0 \<le> int_of_digits s"
  by (induction s rule: rev_induct) (simp_all add: int_of_digits_snoc, simp add: int_of_digits_def)

lemma int_of_digits_zeros:
  "int_of_digits (replicate k (CHR ''0'') @ s) = int_of_digits s"
proof -
  have "foldl (\<lambda>acc c. 10 * acc + int (digit_value c)) 0 (replicate k (CHR ''0'')) = 0"
    by (induction k) (simp_all add: digit_value_def)
  then show ?thesis
    by (simp add: int_of_digits_def)
qed

lemma int_of_digits_str_nat: "int_of_digits (str_nat n) = int n"
proof (induction n rule: str_nat.induct)
  case (1 n)
  show ?case
  proof (cases "n < 10")
    case True
    then show ?thesis
      by (subst str_nat.simps) (simp add: int_of_digits_def digit_value_digit_char)
  next
    case False
    then have "int_of_digits (str_nat n)
               = 10 * int_of_digits (str_nat (n div 10)) + int (digit_value (digit_char (n mod 10)))"
      by (subst str_nat.simps) (simp add: int_of_digits_snoc)
    also have "\<dots> = 10 * int (n div 10) + int (n mod 10)"
      using "1.IH" False by (simp add: digit_value_digit_char)
    also have "\<dots> = int n"
      by presburger
    finally show ?thesis .
  qed
qed

lemma digit_char_0: "digit_char 0 = CHR ''0''"
  by code_simp

lemma str_nat_0: "str_nat 0 = ''0''"
  by (subst str_nat.simps) (simp add: digit_char_0)

lemma digit_value_0: "is_digit c \<Longrightarrow> digit_value c = 0 \<Longrightarrow> c = CHR ''0''"
  using digit_char_digit_value [of c] by (simp add: digit_char_0)

lemma str_nat_int_of_digits:
  "list_all is_digit d \<Longrightarrow> d \<noteq> [] \<Longrightarrow> hd d \<noteq> CHR ''0'' \<Longrightarrow>
   str_nat (nat (int_of_digits d)) = d"
proof (induction d rule: rev_induct)
  case Nil
  then show ?case by simp
next
  case (snoc c ds)
  have c: "is_digit c" and ds: "list_all is_digit ds"
    using snoc.prems(1) by simp_all
  have val: "nat (int_of_digits (ds @ [c])) = 10 * nat (int_of_digits ds) + digit_value c"
    using int_of_digits_nonneg [of ds] by (simp add: int_of_digits_snoc nat_add_distrib nat_mult_distrib)
  show ?case
  proof (cases "ds = []")
    case True
    then have "nat (int_of_digits (ds @ [c])) = digit_value c"
      by (simp add: int_of_digits_def)
    then show ?thesis
      using True c by (subst str_nat.simps) (simp add: digit_value_less digit_char_digit_value)
  next
    case False
    then have hd: "hd ds \<noteq> CHR ''0''"
      using snoc.prems(3) by simp
    have ih: "str_nat (nat (int_of_digits ds)) = ds"
      using snoc.IH ds False hd by simp
    have pos: "0 < nat (int_of_digits ds)"
    proof (rule ccontr)
      assume "\<not> 0 < nat (int_of_digits ds)"
      then have "str_nat 0 = ds"
        using ih by simp
      then show False
        using hd by (auto simp: str_nat_0)
    qed
    have "\<not> nat (int_of_digits (ds @ [c])) < 10"
      using val pos by simp
    moreover have "nat (int_of_digits (ds @ [c])) div 10 = nat (int_of_digits ds)"
      using val digit_value_less [OF c] by simp
    moreover have "nat (int_of_digits (ds @ [c])) mod 10 = digit_value c"
      using val digit_value_less [OF c] by simp
    ultimately show ?thesis
      using ih c by (subst str_nat.simps) (simp add: digit_char_digit_value)
  qed
qed

lemma str_int_nonneg: "0 \<le> n \<Longrightarrow> str_int n = str_nat (nat n)"
  by (simp add: str_int_def)

lemma zfill_str_nat:
  "zfill (str_nat n) width = replicate (nat width - length (str_nat n)) (CHR ''0'') @ str_nat n"
  using hd_str_nat_digit [of n] sign_not_digit str_nat_not_empty
  by (intro zfill_unsigned) auto

lemma int_of_digits_zfill:
  "0 \<le> n \<Longrightarrow> int_of_digits (zfill (str_int n) width) = n"
  by (simp add: str_int_nonneg zfill_str_nat int_of_digits_zeros int_of_digits_str_nat)

lemma zfill_inj:
  "0 \<le> n \<Longrightarrow> 0 \<le> m \<Longrightarrow> zfill (str_int n) width = zfill (str_int m) width \<Longrightarrow> n = m"
  by (metis int_of_digits_zfill)

lemma zfill_unpadded:
  assumes "digit_run d" and "\<not> startswith d ''0''"
  shows "zfill (str_int (int_of_digits d)) 0 = d"
proof -
  have "hd d \<noteq> CHR ''0''"
    using assms by (cases d) (simp_all add: digit_run_def startswith_def)
  then have "str_nat (nat (int_of_digits d)) = d"
    using assms(1) by (simp add: digit_run_def str_nat_int_of_digits)
  then show ?thesis
    using int_of_digits_nonneg [of d] by (simp add: str_int_nonneg zfill_def)
qed

lemma zfill_zero: "0 < k \<Longrightarrow> zfill (str_int 0) (int k) = replicate k (CHR ''0'')"
proof -
  assume "0 < k"
  then obtain j where k: "k = Suc j"
    by (cases k) auto
  have "zfill (str_nat 0) (int k) = replicate j (CHR ''0'') @ ''0''"
    using zfill_str_nat [of 0 "int k"] k by (simp add: str_nat_0)
  then show ?thesis
    using k by (simp add: str_int_def replicate_append_same)
qed

lemma takeWhile_zeros:
  "takeWhile (\<lambda>c. c = z) d = replicate (length (takeWhile (\<lambda>c. c = z) d)) z"
  by (induction d) auto

lemma zfill_padded:
  assumes "digit_run d"
  shows "zfill (str_int (int_of_digits d)) (int (length d)) = d"
proof -
  define k where "k = length (takeWhile (\<lambda>c. c = CHR ''0'') d)"
  define r where "r = dropWhile (\<lambda>c. c = CHR ''0'') d"
  have d: "d = replicate k (CHR ''0'') @ r"
    unfolding k_def r_def using takeWhile_zeros [of "CHR ''0''" d]
    by (metis takeWhile_dropWhile_id)
  have len: "length d = k + length r"
    by (subst d) simp
  have val: "int_of_digits d = int_of_digits r"
    by (subst d) (rule int_of_digits_zeros)
  have rd: "list_all is_digit r"
    using assms unfolding r_def digit_run_def
    by (metis dropWhile_eq_drop list_all_iff set_drop_subset subsetD)
  show ?thesis
  proof (cases "r = []")
    case True
    have "int_of_digits d = 0"
      using val True by (simp add: int_of_digits_def)
    moreover have "0 < length d"
      using assms by (simp add: digit_run_def)
    moreover have "d = replicate (length d) (CHR ''0'')"
      using d len True by simp
    ultimately show ?thesis
      using zfill_zero [of "length d"] by simp
  next
    case False
    have "hd r \<noteq> CHR ''0''"
      unfolding r_def using hd_dropWhile [of "\<lambda>c. c = CHR ''0''" d] False r_def by blast
    then have "str_nat (nat (int_of_digits r)) = r"
      using rd False by (simp add: str_nat_int_of_digits)
    then have "zfill (str_int (int_of_digits r)) (int (length d))
               = replicate (length d - length r) (CHR ''0'') @ r"
      using zfill_str_nat [of "nat (int_of_digits r)" "int (length d)"]
        int_of_digits_nonneg [of r]
      by (simp add: str_int_nonneg)
    then show ?thesis
      using val len d by simp
  qed
qed

lemma zfill_roundtrip:
  "digit_run d \<Longrightarrow>
   zfill (str_int (int_of_digits d)) (if startswith d ''0'' then int (length d) else 0) = d"
  by (simp add: zfill_padded zfill_unpadded)

section \<open>The components of a name\<close>

lemma concat_NUMBER_PATTERN_split: "concat (NUMBER_PATTERN_split s) = s"
proof (induction s rule: NUMBER_PATTERN_split.induct)
  case (1 s)
  define rest where "rest = dropWhile (\<lambda>c. \<not> is_digit c) s"
  show ?case
  proof (cases "rest = []")
    case True
    then have "NUMBER_PATTERN_split s = [takeWhile (\<lambda>c. \<not> is_digit c) s]"
      by (subst NUMBER_PATTERN_split.simps) (simp add: rest_def Let_def)
    moreover have "takeWhile (\<lambda>c. \<not> is_digit c) s = s"
      using True takeWhile_dropWhile_id [of "\<lambda>c. \<not> is_digit c" s] by (simp add: rest_def)
    ultimately show ?thesis by simp
  next
    case False
    then have "NUMBER_PATTERN_split s
               = takeWhile (\<lambda>c. \<not> is_digit c) s # takeWhile is_digit rest
                 # NUMBER_PATTERN_split (dropWhile is_digit rest)"
      by (subst NUMBER_PATTERN_split.simps) (simp add: rest_def Let_def)
    moreover have "concat (NUMBER_PATTERN_split (dropWhile is_digit rest)) = dropWhile is_digit rest"
      using "1.IH" [OF refl rest_def False] .
    ultimately show ?thesis
      by (simp add: rest_def)
  qed
qed

lemma fields_ok_Cons2:
  "fields_ok c \<Longrightarrow> digit_run d \<Longrightarrow> fields_ok (l # d # c)"
  unfolding fields_ok_def
proof (intro conjI allI impI)
  assume a: "odd (length c) \<and> (\<forall>i<length c. odd i \<longrightarrow> digit_run (c ! i))" and d: "digit_run d"
  show "odd (length (l # d # c))"
    using a by simp
  fix i
  assume i: "i < length (l # d # c)" and o: "odd i"
  show "digit_run ((l # d # c) ! i)"
  proof (cases "i = 1")
    case True
    then show ?thesis using d by simp
  next
    case False
    then obtain j where j: "i = Suc (Suc j)"
      using o by (cases i; cases "i - 1") auto
    then have "j < length c" "odd j"
      using i o by simp_all
    then show ?thesis
      using a j by simp
  qed
qed

lemma fields_ok_split: "fields_ok (NUMBER_PATTERN_split s)"
proof (induction s rule: NUMBER_PATTERN_split.induct)
  case (1 s)
  define rest where "rest = dropWhile (\<lambda>c. \<not> is_digit c) s"
  show ?case
  proof (cases "rest = []")
    case True
    then have "NUMBER_PATTERN_split s = [takeWhile (\<lambda>c. \<not> is_digit c) s]"
      by (subst NUMBER_PATTERN_split.simps) (simp add: rest_def Let_def)
    then show ?thesis
      by (simp add: fields_ok_def)
  next
    case False
    then have eq: "NUMBER_PATTERN_split s
               = takeWhile (\<lambda>c. \<not> is_digit c) s # takeWhile is_digit rest
                 # NUMBER_PATTERN_split (dropWhile is_digit rest)"
      by (subst NUMBER_PATTERN_split.simps) (simp add: rest_def Let_def)
    obtain c cs where cs: "rest = c # cs"
      using False by (cases rest) auto
    have "is_digit c"
      using dropWhile_eq_Cons_conv [of "\<lambda>c. \<not> is_digit c" s c cs] cs rest_def by simp
    then have "takeWhile is_digit rest \<noteq> []"
      using cs by simp
    moreover have "list_all is_digit (takeWhile is_digit rest)"
      by (simp add: list_all_iff) (meson set_takeWhileD)
    ultimately have "digit_run (takeWhile is_digit rest)"
      by (simp add: digit_run_def)
    then show ?thesis
      using eq fields_ok_Cons2 [OF "1.IH" [OF refl rest_def False]] by simp
  qed
qed

lemma py_range_down2:
  "i \<in> set (py_range a 0 (- 2)) \<Longrightarrow> 0 < i \<and> i \<le> a \<and> even (a - i)"
proof (induction a "0::int" "- 2::int" rule: py_range.induct)
  case (1 start)
  show ?case
  proof (cases "0 < start")
    case True
    then have "py_range start 0 (- 2) = start # py_range (start + - 2) 0 (- 2)"
      by (subst py_range.simps) simp
    then have "i = start \<or> i \<in> set (py_range (start + - 2) 0 (- 2))"
      using "1.prems" by simp
    then show ?thesis
    proof
      assume "i = start"
      then show ?thesis using True by simp
    next
      assume "i \<in> set (py_range (start + - 2) 0 (- 2))"
      then have "0 < i \<and> i \<le> start + - 2 \<and> even (start + - 2 - i)"
        using "1.hyps" True by simp
      then show ?thesis by simp
    qed
  next
    case False
    then have "py_range start 0 (- 2) = []"
      by (subst py_range.simps) simp
    then show ?thesis
      using "1.prems" by simp
  qed
qed

lemma fields_of_split:
  assumes "i \<in> set (py_range (int (length (NUMBER_PATTERN_split s)) - 2) 0 (- 2))"
  shows "field_of (NUMBER_PATTERN_split s) i"
proof -
  let ?c = "NUMBER_PATTERN_split s"
  have ok: "fields_ok ?c"
    by (rule fields_ok_split)
  have i: "0 < i" "i \<le> int (length ?c) - 2" "even (int (length ?c) - 2 - i)"
    using py_range_down2 [OF assms] by simp_all
  have "odd (int (length ?c))"
    using ok by (simp add: fields_ok_def)
  then have "odd i"
    using i(3) by simp
  then have "odd (nat i)"
    using i(1) by (simp add: even_nat_iff)
  moreover have "nat i < length ?c"
    using i by linarith
  ultimately show ?thesis
    using ok i(1) by (simp add: field_of_def fields_ok_def)
qed

section \<open>The two scans\<close>

lemma scan_forward_miss:
  "\<not> (n < stop \<and> adjacent_file c i p n \<in> set E) \<Longrightarrow>
   scan_forward c i p n stop E lf = (E, lf)"
  by (subst scan_forward.simps) auto

lemma scan_forward_step:
  "n < stop \<Longrightarrow> adjacent_file c i p n \<in> set E \<Longrightarrow>
   scan_forward c i p n stop E lf
     = scan_forward c i p (n + 1) stop (remove1 (adjacent_file c i p n) E) n"
  by (subst scan_forward.simps) simp

lemma scan_reverse_miss:
  "\<not> (0 < n \<and> adjacent_file c i p n \<in> set E) \<Longrightarrow>
   scan_reverse c i p n E ff = (E, ff)"
  by (subst scan_reverse.simps) auto

lemma scan_reverse_step:
  "0 < n \<Longrightarrow> adjacent_file c i p n \<in> set E \<Longrightarrow>
   scan_reverse c i p n E ff
     = scan_reverse c i p (n - 1) (remove1 (adjacent_file c i p n) E) n"
  by (subst scan_reverse.simps) simp

lemma scan_forward_account:
  assumes "scan_forward c i p n stop E lf = (E', l)" and "lf = n - 1"
  shows "n - 1 \<le> l \<and> (l < stop \<or> l = n - 1)
         \<and> mset E = mset E' + mset (map (adjacent_file c i p) [n..l])
         \<and> (stop \<le> l + 1 \<or> adjacent_file c i p (l + 1) \<notin> set E')"
  using assms
proof (induction c i p n stop E lf arbitrary: E' l rule: scan_forward.induct)
  case (1 c i p n stop E lf)
  let ?x = "adjacent_file c i p n"
  show ?case
  proof (cases "n < stop \<and> ?x \<in> set E")
    case True
    then have run: "scan_forward c i p (n + 1) stop (remove1 ?x E) n = (E', l)"
      using "1.prems"(1) scan_forward_step [of n stop c i p E lf] by simp
    have ih: "n + 1 - 1 \<le> l \<and> (l < stop \<or> l = n + 1 - 1)
         \<and> mset (remove1 ?x E) = mset E' + mset (map (adjacent_file c i p) [n + 1..l])
         \<and> (stop \<le> l + 1 \<or> adjacent_file c i p (l + 1) \<notin> set E')"
      using True by (intro "1.IH" [OF _ _ run]) simp_all
    then have nl: "n \<le> l"
      by simp
    have "mset E = add_mset ?x (mset (remove1 ?x E))"
      using True by simp
    also have "\<dots> = mset E' + mset (map (adjacent_file c i p) (n # [n + 1..l]))"
      using ih by simp
    also have "n # [n + 1..l] = [n..l]"
      using nl by (simp add: upto_rec1)
    finally have m: "mset E = mset E' + mset (map (adjacent_file c i p) [n..l])" .
    have "l < stop"
      using ih True by linarith
    then show ?thesis
      using ih nl m by simp
  next
    case False
    then have "scan_forward c i p n stop E lf = (E, lf)"
      by (rule scan_forward_miss)
    then have e: "E' = E" "l = n - 1"
      using "1.prems" by simp_all
    have "[n..n - 1] = []"
      by simp
    then show ?thesis
      using False e by (simp del: upto.simps) linarith
  qed
qed

lemma scan_reverse_account:
  assumes "scan_reverse c i p n E ff = (E', f)" and "ff = n + 1"
  shows "f \<le> n + 1 \<and> (0 < f \<or> f = n + 1)
         \<and> mset E = mset E' + mset (map (adjacent_file c i p) [f..n])
         \<and> (f - 1 \<le> 0 \<or> adjacent_file c i p (f - 1) \<notin> set E')"
  using assms
proof (induction c i p n E ff arbitrary: E' f rule: scan_reverse.induct)
  case (1 c i p n E ff)
  let ?x = "adjacent_file c i p n"
  show ?case
  proof (cases "0 < n \<and> ?x \<in> set E")
    case True
    then have run: "scan_reverse c i p (n - 1) (remove1 ?x E) n = (E', f)"
      using "1.prems"(1) scan_reverse_step [of n c i p E ff] by simp
    have ih: "f \<le> n - 1 + 1 \<and> (0 < f \<or> f = n - 1 + 1)
         \<and> mset (remove1 ?x E) = mset E' + mset (map (adjacent_file c i p) [f..n - 1])
         \<and> (f - 1 \<le> 0 \<or> adjacent_file c i p (f - 1) \<notin> set E')"
      using True by (intro "1.IH" [OF _ _ run]) simp_all
    then have fn: "f \<le> n"
      by simp
    have "mset E = add_mset ?x (mset (remove1 ?x E))"
      using True by simp
    also have "\<dots> = mset E' + mset (map (adjacent_file c i p) ([f..n - 1] @ [n]))"
      using ih by simp
    also have "[f..n - 1] @ [n] = [f..n]"
      using fn by (simp add: upto_rec2)
    finally have m: "mset E = mset E' + mset (map (adjacent_file c i p) [f..n])" .
    have "0 < f"
      using ih True by linarith
    then show ?thesis
      using ih fn m by simp
  next
    case False
    then have "scan_reverse c i p n E ff = (E, ff)"
      by (rule scan_reverse_miss)
    then have e: "E' = E" "f = n + 1"
      using "1.prems" by simp_all
    have "[n + 1..n] = []"
      by simp
    then show ?thesis
      using False e by (simp del: upto.simps) linarith
  qed
qed

lemma scan_forward_hit:
  assumes "n < stop" and "adjacent_file c i p n \<in> set E"
    and "scan_forward c i p n stop E lf = (E', l)"
  shows "n \<le> l"
proof -
  have "scan_forward c i p (n + 1) stop (remove1 (adjacent_file c i p n) E) n = (E', l)"
    using assms scan_forward_step [of n stop c i p E lf] by simp
  then show ?thesis
    using scan_forward_account [of c i p "n + 1" stop _ n E' l] by simp
qed

lemma scan_reverse_hit:
  assumes "0 < n" and "adjacent_file c i p n \<in> set E"
    and "scan_reverse c i p n E ff = (E', f)"
  shows "f \<le> n"
proof -
  have "scan_reverse c i p (n - 1) (remove1 (adjacent_file c i p n) E) n = (E', f)"
    using assms scan_reverse_step [of n c i p E ff] by simp
  then show ?thesis
    using scan_reverse_account [of c i p "n - 1" _ n E' f] by simp
qed

text \<open>The names of a field: its components with another number in the field.\<close>

lemma adjacent_file_parts:
  "i < length c \<Longrightarrow>
   adjacent_file c i p n
     = concat (take i c) @ zfill (str_int n) p @ concat (drop (Suc i) c)"
  by (simp add: adjacent_file_def upd_conv_take_nth_drop)

lemma adjacent_file_inj:
  "i < length c \<Longrightarrow> 0 \<le> n \<Longrightarrow> 0 \<le> m \<Longrightarrow>
   adjacent_file c i p n = adjacent_file c i p m \<Longrightarrow> n = m"
  by (simp add: adjacent_file_parts) (rule zfill_inj)

lemma adjacent_file_entry:
  assumes "i < length c" and "digit_run (c ! i)"
  shows "adjacent_file c i (if startswith (c ! i) ''0'' then int (length (c ! i)) else 0)
           (int_of_digits (c ! i)) = concat c"
proof -
  have "c[i := c ! i] = c"
    by simp
  then show ?thesis
    unfolding adjacent_file_def using zfill_roundtrip [OF assms(2)] by simp
qed

section \<open>One numeric field\<close>

lemma field_number_nonneg: "0 \<le> field_number c k"
  by (simp add: field_number_def int_of_digits_nonneg)

lemma fits_long_mono: "0 \<le> a \<Longrightarrow> a \<le> b \<Longrightarrow> fits_long b \<Longrightarrow> fits_long a"
  by (simp add: fits_long_def sys_maxint_def)

lemma fits_long_small: "fits_long 0" "fits_long (- 1)"
  by (simp_all add: fits_long_def sys_maxint_def)

lemma fits_long_pred: "0 \<le> v \<Longrightarrow> fits_long (v + 1) \<Longrightarrow> fits_long (v - 1)"
  by (simp add: fits_long_def sys_maxint_def)

lemma try_fields_overflow:
  "\<not> fits_long (field_number c (nat i) + int (length E) + 1) \<Longrightarrow>
   try_fields c (i # indices) E = (Inl OverflowError, E)"
  by (simp add: Let_def field_number_def)

lemma try_fields_Cons:
  assumes "fits_long (field_number c (nat i) + int (length E) + 1)"
    and "try_field c (nat i) E = (E2, f, l)"
  shows "try_fields c (i # indices) E =
           (if f - l \<noteq> 0
            then (Inr (Some (init '''' (concat (take (nat i) c)) (concat (drop (nat i + 1) c))
                              f l (field_padding c (nat i)))), E2)
            else try_fields c indices E2)"
proof -
  let ?v = "field_number c (nat i)"
  have 1: "fits_long (?v + 1)"
    using assms(1) field_number_nonneg [of c "nat i"]
    by (intro fits_long_mono [of "?v + 1" "?v + int (length E) + 1"]) simp_all
  have 2: "fits_long (?v - 1)"
    using 1 field_number_nonneg by (rule fits_long_pred [rotated])
  obtain E1 l1 where fw:
    "scan_forward c (nat i) (field_padding c (nat i)) (?v + 1) (?v + int (length E) + 1) E ?v
       = (E1, l1)"
    by (cases "scan_forward c (nat i) (field_padding c (nat i)) (?v + 1)
                 (?v + int (length E) + 1) E ?v") auto
  obtain E2' f1 where bw:
    "scan_reverse c (nat i) (field_padding c (nat i)) (?v - 1) E1 ?v = (E2', f1)"
    by (cases "scan_reverse c (nat i) (field_padding c (nat i)) (?v - 1) E1 ?v") auto
  have "try_field c (nat i) E = (E2', f1, l1)"
    using fw bw by (simp add: try_field_def)
  then have eq: "E2' = E2" "f1 = f" "l1 = l"
    using assms(2) by simp_all
  show ?thesis
    using assms(1) 1 2 fits_long_small fw bw eq
    by (simp add: Let_def field_number_def field_padding_def split del: if_split cong: if_cong)
qed

lemma try_field_account:
  assumes run: "try_field c k E = (E2, f, l)" and k: "k < length c" and d: "digit_run (c ! k)"
  shows "f \<le> field_number c k \<and> field_number c k \<le> l
         \<and> (0 < f \<or> f = field_number c k)
         \<and> l \<le> field_number c k + int (length E)
         \<and> mset (concat c # E)
             = mset E2 + mset (map (adjacent_file c k (field_padding c k)) [f..l])"
proof -
  let ?v = "field_number c k" and ?p = "field_padding c k"
  obtain E1 l1 where fw:
    "scan_forward c k ?p (?v + 1) (?v + int (length E) + 1) E ?v = (E1, l1)"
    by (cases "scan_forward c k ?p (?v + 1) (?v + int (length E) + 1) E ?v") auto
  obtain E2' f1 where bw: "scan_reverse c k ?p (?v - 1) E1 ?v = (E2', f1)"
    by (cases "scan_reverse c k ?p (?v - 1) E1 ?v") auto
  have "try_field c k E = (E2', f1, l1)"
    using fw bw by (simp add: try_field_def)
  then have eq: "E2' = E2" "f1 = f" "l1 = l"
    using run by simp_all
  have a: "?v \<le> l" "l < ?v + int (length E) + 1 \<or> l = ?v"
    "mset E = mset E1 + mset (map (adjacent_file c k ?p) [?v + 1..l])"
    using scan_forward_account [OF fw] eq by simp_all
  have b: "f \<le> ?v" "0 < f \<or> f = ?v"
    "mset E1 = mset E2 + mset (map (adjacent_file c k ?p) [f..?v - 1])"
    using scan_reverse_account [OF bw] eq by simp_all
  have split: "[f..l] = [f..?v - 1] @ ?v # [?v + 1..l]"
    by (rule upto_split3 [OF b(1) a(1)])
  have entry: "adjacent_file c k ?p ?v = concat c"
    using adjacent_file_entry [OF k d] by (simp add: field_number_def field_padding_def)
  have "mset (concat c # E)
        = mset E2 + mset (map (adjacent_file c k ?p) [f..l])"
    unfolding split using a(3) b(3) entry by simp
  moreover have "l \<le> ?v + int (length E)"
    using a(2) by linarith
  ultimately show ?thesis
    using a(1) b(1) b(2) by simp
qed

lemma try_field_miss:
  assumes "E = [] \<or> adjacent_file c k (field_padding c k) (field_number c k + 1) \<notin> set E"
    and "field_number c k \<le> 1
         \<or> adjacent_file c k (field_padding c k) (field_number c k - 1) \<notin> set E"
  shows "try_field c k E = (E, field_number c k, field_number c k)"
proof -
  let ?v = "field_number c k" and ?p = "field_padding c k"
  have "scan_forward c k ?p (?v + 1) (?v + int (length E) + 1) E ?v = (E, ?v)"
    using assms(1) by (intro scan_forward_miss) auto
  moreover have "scan_reverse c k ?p (?v - 1) E ?v = (E, ?v)"
    using assms(2) by (intro scan_reverse_miss) auto
  ultimately show ?thesis
    by (simp add: try_field_def)
qed

lemma try_field_none:
  assumes run: "try_field c k E = (E2, f, l)" and eq: "f = l"
  shows "E2 = E \<and> f = field_number c k
         \<and> (E = [] \<or> adjacent_file c k (field_padding c k) (field_number c k + 1) \<notin> set E)
         \<and> (field_number c k \<le> 1
             \<or> adjacent_file c k (field_padding c k) (field_number c k - 1) \<notin> set E)"
proof -
  let ?v = "field_number c k" and ?p = "field_padding c k"
  obtain E1 l1 where fw:
    "scan_forward c k ?p (?v + 1) (?v + int (length E) + 1) E ?v = (E1, l1)"
    by (cases "scan_forward c k ?p (?v + 1) (?v + int (length E) + 1) E ?v") auto
  obtain E2' f1 where bw: "scan_reverse c k ?p (?v - 1) E1 ?v = (E2', f1)"
    by (cases "scan_reverse c k ?p (?v - 1) E1 ?v") auto
  have "try_field c k E = (E2', f1, l1)"
    using fw bw by (simp add: try_field_def)
  then have e: "E2' = E2" "f1 = f" "l1 = l"
    using run by simp_all
  have "?v \<le> l" "f \<le> ?v"
    using scan_forward_account [OF fw] scan_reverse_account [OF bw] e by simp_all
  then have v: "l = ?v" "f = ?v"
    using eq by simp_all
  have miss1: "\<not> (?v + 1 < ?v + int (length E) + 1 \<and> adjacent_file c k ?p (?v + 1) \<in> set E)"
  proof
    assume "?v + 1 < ?v + int (length E) + 1 \<and> adjacent_file c k ?p (?v + 1) \<in> set E"
    then have "?v + 1 \<le> l1"
      using scan_forward_hit [OF _ _ fw] by simp
    then show False
      using e v by simp
  qed
  then have E1: "E1 = E"
    using fw scan_forward_miss [OF miss1, of ?v] by simp
  have miss2: "\<not> (0 < ?v - 1 \<and> adjacent_file c k ?p (?v - 1) \<in> set E)"
  proof
    assume "0 < ?v - 1 \<and> adjacent_file c k ?p (?v - 1) \<in> set E"
    then have "f1 \<le> ?v - 1"
      using scan_reverse_hit [OF _ _ bw] E1 by simp
    then show False
      using e v by simp
  qed
  then have "E2' = E"
    using bw E1 scan_reverse_miss [OF miss2, of ?v] by simp
  moreover have "E = [] \<or> adjacent_file c k ?p (?v + 1) \<notin> set E"
    using miss1 by (cases E) auto
  moreover have "?v \<le> 1 \<or> adjacent_file c k ?p (?v - 1) \<notin> set E"
    using miss2 by linarith
  ultimately show ?thesis
    using e v by simp
qed

lemma filenames_init:
  "k < length c \<Longrightarrow>
   filenames (init pa (concat (take k c)) (concat (drop (k + 1) c)) f l p)
     = map (adjacent_file c k p) [f..l]"
  by (simp add: filenames_def init_def adjacent_file_parts)

lemma try_fields_found:
  assumes "try_fields c indices E = (Inr (Some s), E')" and "\<forall>i \<in> set indices. field_of c i"
  shows "first s < last_num s \<and> 0 \<le> first s
         \<and> last_num s < sys_maxint
         \<and> mset (concat c # E) = mset E' + mset (filenames s)"
  using assms
proof (induction indices arbitrary: E)
  case Nil
  then show ?case by simp
next
  case (Cons i indices)
  let ?k = "nat i"
  let ?v = "field_number c ?k" and ?p = "field_padding c ?k"
  have k: "?k < length c" and d: "digit_run (c ! ?k)"
    using Cons.prems(2) by (simp_all add: field_of_def)
  have fits: "fits_long (?v + int (length E) + 1)"
    using Cons.prems(1) try_fields_overflow [of c i E indices] by auto
  obtain E2 f l where tf: "try_field c ?k E = (E2, f, l)"
    by (cases "try_field c ?k E") auto
  note acc = try_field_account [OF tf k d]
  show ?case
  proof (cases "f = l")
    case True
    then have "E2 = E"
      using try_field_none [OF tf] by simp
    then have "try_fields c indices E = (Inr (Some s), E')"
      using Cons.prems(1) try_fields_Cons [OF fits tf, of indices] True by simp
    then show ?thesis
      using Cons.IH Cons.prems(2) by simp
  next
    case False
    then have s: "s = init '''' (concat (take ?k c)) (concat (drop (?k + 1) c)) f l ?p"
      and E': "E' = E2"
      using Cons.prems(1) try_fields_Cons [OF fits tf, of indices] by simp_all
    have fl: "first s = f" "last_num s = l"
      using s by (simp_all add: init_def)
    have names: "filenames s = map (adjacent_file c ?k ?p) [f..l]"
      unfolding s by (rule filenames_init [OF k])
    have "0 \<le> f"
      using acc field_number_nonneg [of c ?k] by auto
    moreover have "f < l"
      using acc False by linarith
    moreover have "l < sys_maxint"
      using acc fits by (simp add: fits_long_def)
    ultimately show ?thesis
      using acc fl names E' by simp
  qed
qed

lemma try_fields_none:
  assumes "try_fields c indices E = (Inr None, E')" and "\<forall>i \<in> set indices. field_of c i"
  shows "E' = E"
  using assms
proof (induction indices arbitrary: E)
  case Nil
  then show ?case by simp
next
  case (Cons i indices)
  let ?k = "nat i"
  have fits: "fits_long (field_number c ?k + int (length E) + 1)"
    using Cons.prems(1) try_fields_overflow [of c i E indices] by auto
  obtain E2 f l where tf: "try_field c ?k E = (E2, f, l)"
    by (cases "try_field c ?k E") auto
  have eq: "f = l"
    using Cons.prems(1) try_fields_Cons [OF fits tf, of indices] by (auto split: if_splits)
  then have "E2 = E"
    using try_field_none [OF tf] by simp
  then have "try_fields c indices E = (Inr None, E')"
    using Cons.prems(1) try_fields_Cons [OF fits tf, of indices] eq by simp
  then show ?case
    using Cons.IH Cons.prems(2) by simp
qed

section \<open>Sequences found by the loop\<close>

lemma py_range_up: "py_range a b 1 = [a..b - 1]"
proof (induction a b "1::int" rule: py_range.induct)
  case (1 start stop)
  show ?case
  proof (cases "start < stop")
    case True
    then have "py_range start stop 1 = start # py_range (start + 1) stop 1"
      by (subst py_range.simps) simp
    also have "\<dots> = start # [start + 1..stop - 1]"
      using "1.hyps" True by simp
    also have "\<dots> = [start..stop - 1]"
      using True by (simp add: upto_rec1)
    finally show ?thesis .
  next
    case False
    then show ?thesis
      by (subst py_range.simps) simp
  qed
qed

lemma collect_map_Inr: "collect (map (\<lambda>x. Inr (f x)) xs) = Inr (map f xs)"
  by (induction xs) simp_all

lemma iter_filenames: "iter s = Inr (filenames s)"
proof -
  have eq: "map (filename s) [first s..last_num s]
        = map (\<lambda>n. Inr (head s @ zfill (str_int n) (padding s) @ tail s)) [first s..last_num s]"
    by (rule map_cong) (simp_all add: filename_def)
  show ?thesis
    unfolding iter_def py_range_up filenames_def by (simp add: eq collect_map_Inr)
qed

lemma collect_iter: "collect (map iter sequences) = Inr (map filenames sequences)"
  by (induction sequences) (simp_all add: iter_filenames)

lemma nonzero_True:
  "first s < last_num s \<Longrightarrow> 0 \<le> first s \<Longrightarrow> last_num s < sys_maxint \<Longrightarrow>
   nonzero s = Inr True"
  by (simp add: nonzero_def len_def fits_long_def Let_def sys_maxint_def)

lemma try_entry_found:
  assumes "try_entry entry entries = (Inr (Some s), E1)"
  shows "first s < last_num s \<and> nonzero s = Inr True
         \<and> mset (entry # entries) = mset E1 + mset (filenames s)"
proof -
  have "first s < last_num s \<and> 0 \<le> first s \<and> last_num s < sys_maxint
        \<and> mset (concat (NUMBER_PATTERN_split entry) # entries) = mset E1 + mset (filenames s)"
    using assms by (rule try_fields_found) (simp add: fields_of_split)
  then show ?thesis
    by (simp add: nonzero_True concat_NUMBER_PATTERN_split)
qed

lemma try_entry_none:
  assumes "try_entry entry entries = (Inr None, E1)"
  shows "E1 = entries"
  using assms by (rule try_fields_none) (simp add: fields_of_split)

lemma find_loop_others:
  assumes "find_loop E s0 o0 = (Inr (s', o'), E')"
  shows "set o0 \<subseteq> set o'"
proof -
  have "set o0 \<subseteq> set o' \<and> E' = []"
    by (rule find_loop_invariant [where I = "\<lambda>E s ot. set o0 \<subseteq> set ot", OF assms]) auto
  then show ?thesis ..
qed

lemma find_loop_proper:
  assumes "find_loop E s0 o0 = (Inr (s', o'), E')" and "\<forall>q \<in> set s0. first q < last_num q"
  shows "\<forall>q \<in> set s'. first q < last_num q"
proof -
  let ?I = "\<lambda>(E :: string list) (s :: FileSequence list) (ot :: string list). \<forall>q \<in> set s. first q < last_num q"
  have "?I [] s' o' \<and> E' = []"
  proof (rule find_loop_invariant [where I = ?I, OF assms(1)])
    show "?I E s0 o0"
      by (rule assms(2))
  next
    fix entry entries s ot E1 q
    assume "?I (entry # entries) s ot" and "try_entry entry entries = (Inr (Some q), E1)"
    then show "?I E1 (s @ [q]) ot"
      using try_entry_found [of entry entries q E1] by simp
  qed
  then show ?thesis ..
qed

lemma find_loop_partition:
  assumes "find_loop E s0 o0 = (Inr (s', o'), E')"
  shows "mset (concat (map filenames s') @ o') = mset (concat (map filenames s0) @ o0 @ E)"
proof -
  let ?I = "\<lambda>E' s ot. mset (concat (map filenames s) @ ot @ E')
                       = mset (concat (map filenames s0) @ o0 @ E)"
  have "?I [] s' o' \<and> E' = []"
  proof (rule find_loop_invariant [where I = ?I, OF assms])
    show "?I E s0 o0" by simp
  next
    fix entry entries s ot E1
    assume "?I (entry # entries) s ot" and "try_entry entry entries = (Inr None, E1)"
    then show "?I E1 s (ot @ [entry])"
      using try_entry_none [of entry entries E1] by simp
  next
    fix entry entries s ot E1 q
    assume inv: "?I (entry # entries) s ot"
      and found: "try_entry entry entries = (Inr (Some q), E1)"
    have e: "mset E1 + mset (filenames q) = mset (entry # entries)"
      using try_entry_found [OF found] by simp
    have "mset (concat (map filenames (s @ [q])) @ ot @ E1)
          = mset (concat (map filenames s) @ ot) + (mset E1 + mset (filenames q))"
      by simp
    also have "\<dots> = mset (concat (map filenames s) @ ot) + mset (entry # entries)"
      by (simp only: e)
    also have "\<dots> = mset (concat (map filenames s) @ ot @ entry # entries)"
      by simp
    finally show "?I E1 (s @ [q]) ot"
      using inv by (rule trans)
  next
    fix entry entries s ot E1 q
    assume "try_entry entry entries = (Inr (Some q), E1)" and "nonzero q = Inr False"
    then have False
      using try_entry_found [of entry entries q E1] by simp
    then show "?I E1 s (ot @ [entry])" ..
  qed
  then show ?thesis by simp
qed

section \<open>Detecting the names of a sequence again\<close>

lemma upto_around:
  "f \<le> v \<Longrightarrow> v \<le> l \<Longrightarrow>
   mset (map g [f..l]) = add_mset (g v) (mset (map g [f..v - 1]) + mset (map g [v + 1..l]))"
  by (simp add: upto_split3 [of f v l])

lemma try_field_rerun:
  assumes k: "k < length c" and d: "digit_run (c ! k)"
    and fv: "f \<le> field_number c k" and vl: "field_number c k \<le> l"
    and f0: "0 < f \<or> f = field_number c k"
    and pool: "mset (concat c # P) = mset (map (adjacent_file c k (field_padding c k)) [f..l])"
  shows "try_field c k P = ([], f, l)"
proof -
  let ?v = "field_number c k" and ?p = "field_padding c k"
  let ?name = "adjacent_file c k ?p"
  have v0: "0 \<le> ?v"
    by (rule field_number_nonneg)
  have f_nonneg: "0 \<le> f"
    using f0 v0 by auto
  have inj: "\<And>n m. 0 \<le> n \<Longrightarrow> 0 \<le> m \<Longrightarrow> ?name n = ?name m \<Longrightarrow> n = m"
    using adjacent_file_inj [OF k] by blast
  have entry: "?name ?v = concat c"
    using adjacent_file_entry [OF k d] by (simp add: field_number_def field_padding_def)
  have P: "mset P = mset (map ?name ([f..?v - 1] @ [?v + 1..l]))"
    using pool upto_around [OF fv vl, of ?name] entry by simp
  have lenP: "int (length P) = l - f"
  proof -
    have "length P = length (map ?name ([f..?v - 1] @ [?v + 1..l]))"
      by (rule mset_eq_length [OF P])
    then show ?thesis
      using fv vl by simp
  qed
  have setP: "set P = ?name ` {f..?v - 1} \<union> ?name ` {?v + 1..l}"
    using mset_eq_setD [OF P] by simp
  obtain E1 l1 where fw:
    "scan_forward c k ?p (?v + 1) (?v + int (length P) + 1) P ?v = (E1, l1)"
    by (cases "scan_forward c k ?p (?v + 1) (?v + int (length P) + 1) P ?v") auto
  have a: "?v \<le> l1" "mset P = mset (E1 @ map ?name [?v + 1..l1])"
    "?v + int (length P) + 1 \<le> l1 + 1 \<or> ?name (l1 + 1) \<notin> set E1"
    using scan_forward_account [OF fw] by simp_all
  have setP1: "set P = set E1 \<union> ?name ` {?v + 1..l1}"
    using mset_eq_setD [OF a(2)] by simp
  have l1_le: "l1 \<le> l"
  proof (rule ccontr)
    assume "\<not> l1 \<le> l"
    then have "l1 \<in> {?v + 1..l1}"
      using vl by simp
    then have "?name l1 \<in> set P"
      unfolding setP1 by blast
    then have "?name l1 \<in> ?name ` ({f..?v - 1} \<union> {?v + 1..l})"
      unfolding setP by (simp only: image_Un)
    then obtain m where m: "m \<in> {f..?v - 1} \<union> {?v + 1..l}" "?name m = ?name l1"
      by (metis imageE)
    then have "m = l1"
      using inj [of m l1] f_nonneg a(1) v0 by auto
    then show False
      using m(1) \<open>\<not> l1 \<le> l\<close> a(1) by auto
  qed
  have l1_ge: "l \<le> l1"
  proof (rule ccontr)
    assume less: "\<not> l \<le> l1"
    then have "l1 + 1 \<in> {?v + 1..l}"
      using a(1) by simp
    then have "?name (l1 + 1) \<in> set P"
      unfolding setP by blast
    moreover have "?name (l1 + 1) \<notin> ?name ` {?v + 1..l1}"
    proof
      assume "?name (l1 + 1) \<in> ?name ` {?v + 1..l1}"
      then obtain m where m: "m \<in> {?v + 1..l1}" "?name m = ?name (l1 + 1)"
        by (metis imageE)
      then have "m = l1 + 1"
        using inj [of m "l1 + 1"] v0 a(1) by auto
      then show False
        using m(1) by simp
    qed
    ultimately have "?name (l1 + 1) \<in> set E1"
      unfolding setP1 by blast
    then have "?v + int (length P) + 1 \<le> l1 + 1"
      using a(3) by auto
    then show False
      using lenP less fv by linarith
  qed
  have l1: "l1 = l"
    using l1_le l1_ge by simp
  have E1: "mset E1 = mset (map ?name [f..?v - 1])"
    using P a(2) l1 by simp
  have setE1: "set E1 = ?name ` {f..?v - 1}"
    using mset_eq_setD [OF E1] by simp
  obtain E2 f1 where bw: "scan_reverse c k ?p (?v - 1) E1 ?v = (E2, f1)"
    by (cases "scan_reverse c k ?p (?v - 1) E1 ?v") auto
  have b: "f1 \<le> ?v" "0 < f1 \<or> f1 = ?v" "mset E1 = mset (E2 @ map ?name [f1..?v - 1])"
    "f1 - 1 \<le> 0 \<or> ?name (f1 - 1) \<notin> set E2"
    using scan_reverse_account [OF bw] by simp_all
  have setE2: "set E1 = set E2 \<union> ?name ` {f1..?v - 1}"
    using mset_eq_setD [OF b(3)] by simp
  have f1_ge: "f \<le> f1"
  proof (rule ccontr)
    assume less: "\<not> f \<le> f1"
    then have pos: "0 < f1"
      using b(2) fv by auto
    have "f1 \<in> {f1..?v - 1}"
      using less fv by simp
    then have "?name f1 \<in> set E1"
      unfolding setE2 by blast
    then obtain m where m: "m \<in> {f..?v - 1}" "?name m = ?name f1"
      unfolding setE1 by (metis imageE)
    then have "m = f1"
      using inj [of m f1] f_nonneg pos by auto
    then show False
      using m(1) less by simp
  qed
  have f1_le: "f1 \<le> f"
  proof (rule ccontr)
    assume less: "\<not> f1 \<le> f"
    then have fpos: "0 < f"
      using f0 b(1) by auto
    have "f1 - 1 \<in> {f..?v - 1}"
      using less b(1) by simp
    then have "?name (f1 - 1) \<in> set E1"
      unfolding setE1 by blast
    moreover have "?name (f1 - 1) \<notin> ?name ` {f1..?v - 1}"
    proof
      assume "?name (f1 - 1) \<in> ?name ` {f1..?v - 1}"
      then obtain m where m: "m \<in> {f1..?v - 1}" "?name m = ?name (f1 - 1)"
        by (metis imageE)
      then have "m = f1 - 1"
        using inj [of m "f1 - 1"] fpos less by auto
      then show False
        using m(1) by simp
    qed
    ultimately have "?name (f1 - 1) \<in> set E2"
      unfolding setE2 by blast
    then have "f1 - 1 \<le> 0"
      using b(4) by auto
    then show False
      using less fpos by linarith
  qed
  have f1: "f1 = f"
    using f1_le f1_ge by simp
  have "mset E2 = {#}"
    using E1 b(3) f1 by simp
  then have "E2 = []"
    by simp
  then show ?thesis
    using fw bw l1 f1 by (simp add: try_field_def)
qed

lemma try_field_none_mono:
  assumes run: "try_field c k P = (E2, f, l)" and eq: "f = l" and sub: "set P' \<subseteq> set P"
  shows "try_field c k P' = (P', field_number c k, field_number c k)"
proof -
  have m: "P = [] \<or> adjacent_file c k (field_padding c k) (field_number c k + 1) \<notin> set P"
    "field_number c k \<le> 1
     \<or> adjacent_file c k (field_padding c k) (field_number c k - 1) \<notin> set P"
    using try_field_none [OF run eq] by simp_all
  have "P' = [] \<or> adjacent_file c k (field_padding c k) (field_number c k + 1) \<notin> set P'"
    using m(1) sub by auto
  moreover have "field_number c k \<le> 1
     \<or> adjacent_file c k (field_padding c k) (field_number c k - 1) \<notin> set P'"
    using m(2) sub by auto
  ultimately show ?thesis
    by (rule try_field_miss)
qed

lemma try_fields_rerun:
  assumes "try_fields c indices P = (Inr (Some s), P2)"
    and "\<forall>i \<in> set indices. field_of c i"
    and "set P' \<subseteq> set P" and "length P' \<le> length P"
    and "mset (concat c # P') = mset (filenames s)"
  shows "try_fields c indices P' = (Inr (Some s), [])"
  using assms(1-4)
proof (induction indices arbitrary: P)
  case Nil
  then show ?case by simp
next
  case (Cons i indices)
  let ?k = "nat i"
  let ?v = "field_number c ?k" and ?p = "field_padding c ?k"
  have fo: "field_of c i" and rest_ok: "\<forall>i \<in> set indices. field_of c i"
    using Cons.prems(2) by simp_all
  have k: "?k < length c" and d: "digit_run (c ! ?k)"
    using fo by (simp_all add: field_of_def)
  have fits: "fits_long (?v + int (length P) + 1)"
  proof (rule ccontr)
    assume "\<not> fits_long (?v + int (length P) + 1)"
    then have "try_fields c (i # indices) P = (Inl OverflowError, P)"
      by (rule try_fields_overflow)
    then have "(Inl OverflowError, P) = (Inr (Some s), P2)"
      using Cons.prems(1) by (simp only:)
    then show False
      by simp
  qed
  have "0 \<le> ?v + int (length P') + 1"
    using field_number_nonneg [of c ?k] by simp
  moreover have "?v + int (length P') + 1 \<le> ?v + int (length P) + 1"
    using Cons.prems(4) by simp
  ultimately have fits': "fits_long (?v + int (length P') + 1)"
    using fits by (rule fits_long_mono)
  obtain E2 f l where tf: "try_field c ?k P = (E2, f, l)"
    by (cases "try_field c ?k P") auto
  note acc = try_field_account [OF tf k d]
  note unfold = try_fields_Cons [OF fits tf, of indices]
  show ?case
  proof (cases "f = l")
    case True
    have "E2 = P"
      using try_field_none [OF tf True] by (rule conjunct1)
    then have "try_fields c (i # indices) P = try_fields c indices P"
      unfolding unfold using True by (simp only: diff_self refl not_True_eq_False if_False)
    then have rest: "try_fields c indices P = (Inr (Some s), P2)"
      using Cons.prems(1) by (simp only:)
    have "try_field c ?k P' = (P', ?v, ?v)"
      using tf True Cons.prems(3) by (rule try_field_none_mono)
    then have "try_fields c (i # indices) P' = try_fields c indices P'"
      unfolding try_fields_Cons [OF fits' \<open>try_field c ?k P' = (P', ?v, ?v)\<close>, of indices]
      by (simp only: diff_self refl not_True_eq_False if_False)
    moreover have "try_fields c indices P' = (Inr (Some s), [])"
      by (rule Cons.IH [OF rest rest_ok Cons.prems(3) Cons.prems(4)])
    ultimately show ?thesis
      by (simp only:)
  next
    case False
    then have ne: "f - l \<noteq> 0"
      by simp
    have res: "try_fields c (i # indices) P
               = (Inr (Some (init '''' (concat (take ?k c)) (concat (drop (?k + 1) c)) f l ?p)), E2)"
      unfolding unfold using ne by simp
    have s: "s = init '''' (concat (take ?k c)) (concat (drop (?k + 1) c)) f l ?p"
      using Cons.prems(1) unfolding res by (simp only: prod.inject sum.inject option.inject)
    have names: "filenames s = map (adjacent_file c ?k ?p) [f..l]"
      unfolding s by (rule filenames_init [OF k])
    have fv: "f \<le> ?v" and vl: "?v \<le> l" and f0: "0 < f \<or> f = ?v"
      using acc by blast+
    have pool: "mset (concat c # P') = mset (map (adjacent_file c ?k ?p) [f..l])"
      using assms(5) unfolding names .
    have "try_field c ?k P' = ([], f, l)"
      by (rule try_field_rerun [OF k d fv vl f0 pool])
    then have "try_fields c (i # indices) P'
               = (Inr (Some (init '''' (concat (take ?k c)) (concat (drop (?k + 1) c)) f l ?p)), [])"
      unfolding try_fields_Cons [OF fits' \<open>try_field c ?k P' = ([], f, l)\<close>, of indices]
      using ne by simp
    then show ?thesis
      unfolding s .
  qed
qed

lemma try_fields_entry:
  assumes "try_fields c indices E = (Inr (Some s), E')" and "\<forall>i \<in> set indices. field_of c i"
  shows "concat c \<in> set (filenames s)"
  using assms
proof (induction indices arbitrary: E)
  case Nil
  then show ?case by simp
next
  case (Cons i indices)
  let ?k = "nat i"
  let ?v = "field_number c ?k" and ?p = "field_padding c ?k"
  have k: "?k < length c" and d: "digit_run (c ! ?k)"
    using Cons.prems(2) by (simp_all add: field_of_def)
  have fits: "fits_long (?v + int (length E) + 1)"
    using Cons.prems(1) try_fields_overflow [of c i E indices] by auto
  obtain E2 f l where tf: "try_field c ?k E = (E2, f, l)"
    by (cases "try_field c ?k E") auto
  note acc = try_field_account [OF tf k d]
  show ?case
  proof (cases "f = l")
    case True
    then have "E2 = E"
      using try_field_none [OF tf] by simp
    then have "try_fields c indices E = (Inr (Some s), E')"
      using Cons.prems(1) try_fields_Cons [OF fits tf, of indices] True by simp
    then show ?thesis
      using Cons.IH Cons.prems(2) by simp
  next
    case False
    then have s: "s = init '''' (concat (take ?k c)) (concat (drop (?k + 1) c)) f l ?p"
      using Cons.prems(1) try_fields_Cons [OF fits tf, of indices] by simp
    have names: "filenames s = map (adjacent_file c ?k ?p) [f..l]"
      unfolding s by (rule filenames_init [OF k])
    have "adjacent_file c ?k ?p ?v = concat c"
      using adjacent_file_entry [OF k d] by (simp add: field_number_def field_padding_def)
    moreover have "?v \<in> set [f..l]"
      using acc by simp
    ultimately show ?thesis
      unfolding names by (metis image_eqI set_map)
  qed
qed

lemma distinct_filenames: "0 \<le> first s \<Longrightarrow> distinct (filenames s)"
proof -
  assume f: "0 \<le> first s"
  have "inj_on (\<lambda>n. head s @ zfill (str_int n) (padding s) @ tail s) (set [first s..last_num s])"
  proof (rule inj_onI)
    fix n m
    assume "n \<in> set [first s..last_num s]" and "m \<in> set [first s..last_num s]"
      and "head s @ zfill (str_int n) (padding s) @ tail s
           = head s @ zfill (str_int m) (padding s) @ tail s"
    then show "n = m"
      using f zfill_inj [of n m "padding s"] by simp
  qed
  then show ?thesis
    by (simp add: filenames_def distinct_map)
qed

lemma sort_min:
  fixes e :: "'a :: linorder"
  assumes "e \<in> set xs" and "\<forall>x \<in> set xs. e \<le> x"
  shows "sort xs = e # sort (remove1 e xs)"
proof (rule properties_for_sort)
  show "mset (e # sort (remove1 e xs)) = mset xs"
    using assms(1) by simp
  show "sorted (e # sort (remove1 e xs))"
    using assms(2) by (auto dest: notin_set_remove1)
qed

lemma scan_forward_sorted:
  "sorted E \<Longrightarrow> sorted (fst (scan_forward c i p n stop E lf))"
proof (induction c i p n stop E lf rule: scan_forward.induct)
  case (1 c i p n stop E lf)
  show ?case
  proof (cases "n < stop \<and> adjacent_file c i p n \<in> set E")
    case True
    have "sorted (remove1 (adjacent_file c i p n) E)"
      using "1.prems" by (rule sorted_remove1)
    then have "sorted (fst (scan_forward c i p (n + 1) stop (remove1 (adjacent_file c i p n) E) n))"
      using "1.IH" True by simp
    then show ?thesis
      using True scan_forward_step [of n stop c i p E lf] by simp
  next
    case False
    then show ?thesis
      using "1.prems" scan_forward_miss [of n stop c i p E lf] by simp
  qed
qed

lemma scan_reverse_sorted:
  "sorted E \<Longrightarrow> sorted (fst (scan_reverse c i p n E ff))"
proof (induction c i p n E ff rule: scan_reverse.induct)
  case (1 c i p n E ff)
  show ?case
  proof (cases "0 < n \<and> adjacent_file c i p n \<in> set E")
    case True
    have "sorted (remove1 (adjacent_file c i p n) E)"
      using "1.prems" by (rule sorted_remove1)
    then have "sorted (fst (scan_reverse c i p (n - 1) (remove1 (adjacent_file c i p n) E) n))"
      using "1.IH" True by simp
    then show ?thesis
      using True scan_reverse_step [of n c i p E ff] by simp
  next
    case False
    then show ?thesis
      using "1.prems" scan_reverse_miss [of n c i p E ff] by simp
  qed
qed

lemma try_fields_sorted:
  "sorted E \<Longrightarrow> sorted (snd (try_fields c indices E))"
proof (induction indices arbitrary: E)
  case Nil
  then show ?case by simp
next
  case (Cons i indices)
  define num where "num = int_of_digits (c ! nat i)"
  define pad where "pad = (if startswith (c ! nat i) ''0'' then int (length (c ! nat i)) else 0)"
  obtain E1 l where fw:
    "scan_forward c (nat i) pad (num + 1) (num + int (length E) + 1) E num = (E1, l)"
    by (cases "scan_forward c (nat i) pad (num + 1) (num + int (length E) + 1) E num") auto
  obtain E2 f where bw: "scan_reverse c (nat i) pad (num - 1) E1 num = (E2, f)"
    by (cases "scan_reverse c (nat i) pad (num - 1) E1 num") auto
  have 1: "sorted E1"
    using scan_forward_sorted [OF Cons.prems, of c "nat i" pad "num + 1"
        "num + int (length E) + 1" num] fw by simp
  have 2: "sorted E2"
    using scan_reverse_sorted [OF 1, of c "nat i" pad "num - 1" num] bw by simp
  have 3: "sorted (snd (try_fields c indices E2))"
    using 2 by (rule Cons.IH)
  show ?case
    using fw bw 1 2 3 Cons.prems by (simp add: Let_def num_def [symmetric] pad_def [symmetric])
qed

lemma find_loop_detected:
  assumes "find_loop E s0 o0 = (Inr (s', o'), E')" and "sorted E" and "\<forall>q \<in> set s0. detected q"
  shows "\<forall>q \<in> set s'. detected q"
proof -
  let ?I = "\<lambda>(E :: string list) (s :: FileSequence list) (ot :: string list).
              sorted E \<and> (\<forall>q \<in> set s. detected q)"
  have "?I [] s' o' \<and> E' = []"
  proof (rule find_loop_invariant [where I = ?I, OF assms(1)])
    show "?I E s0 o0"
      using assms(2,3) by simp
  next
    fix entry entries s ot E1
    assume "?I (entry # entries) s ot" and "try_entry entry entries = (Inr None, E1)"
    then show "?I E1 s (ot @ [entry])"
      using try_entry_none [of entry entries E1] by simp
  next
    fix entry entries s ot E1 q
    assume inv: "?I (entry # entries) s ot"
      and found: "try_entry entry entries = (Inr (Some q), E1)"
    have "sorted entries"
      using inv by simp
    then have "sorted (snd (try_entry entry entries))"
      by (rule try_fields_sorted)
    then have "sorted E1"
      using found by simp
    moreover have "detected q"
      unfolding detected_def using inv found by blast
    ultimately show "?I E1 (s @ [q]) ot"
      using inv by simp
  next
    fix entry entries s ot E1 q
    assume inv: "?I (entry # entries) s ot"
      and found: "try_entry entry entries = (Inr (Some q), E1)"
    have "sorted entries"
      using inv by simp
    then have "sorted (snd (try_entry entry entries))"
      by (rule try_fields_sorted)
    then have "sorted E1"
      using found by simp
    then show "?I E1 s (ot @ [entry])"
      using inv by simp
  qed
  then show ?thesis by simp
qed

lemma detected_rerun:
  assumes "detected s"
  shows "find_in_list (filenames s) = (Inr ([s], []), [])"
proof -
  obtain e P P2 where srt: "sorted (e # P)" and run: "try_entry e P = (Inr (Some s), P2)"
    using assms unfolding detected_def by blast
  let ?c = "NUMBER_PATTERN_split e"
  let ?indices = "py_range (int (length ?c) - 2) 0 (- 2)"
  have ok: "\<forall>i \<in> set ?indices. field_of ?c i"
    by (simp add: fields_of_split)
  have found: "first s < last_num s" "nonzero s = Inr True"
    "mset (e # P) = mset P2 + mset (filenames s)"
    using try_entry_found [OF run] by simp_all
  have nonneg: "0 \<le> first s"
    using try_fields_found [OF run ok] by simp
  have dist: "distinct (filenames s)"
    using nonneg by (rule distinct_filenames)
  have e_in: "e \<in> set (filenames s)"
    using try_fields_entry [OF run ok] by (simp add: concat_NUMBER_PATTERN_split)
  have sub: "set (filenames s) \<subseteq> set (e # P)"
    using found(3) by (metis mset_eq_setD set_mset_mset subsetI union_iff set_mset_union)
  have least: "\<forall>x \<in> set (filenames s). e \<le> x"
    using sub srt by auto
  define P' where "P' = sort (remove1 e (filenames s))"
  have sorted_names: "sort (filenames s) = e # P'"
    unfolding P'_def using e_in least by (rule sort_min)
  have m: "mset (concat ?c # P') = mset (filenames s)"
    using e_in by (simp add: P'_def concat_NUMBER_PATTERN_split)
  have setP': "set P' \<subseteq> set P"
  proof
    fix x
    assume "x \<in> set P'"
    then have "x \<in> set (filenames s)" and "x \<noteq> e"
      using dist by (simp_all add: P'_def)
    then show "x \<in> set P"
      using sub by auto
  qed
  have "length (e # P) = length P2 + length (filenames s)"
    using mset_eq_length [of "e # P" "P2 @ filenames s"] found(3) by simp
  moreover have "length (filenames s) = Suc (length P')"
    using mset_eq_length [OF m] by simp
  ultimately have lenP': "length P' \<le> length P"
    by simp
  have "try_entry e P' = (Inr (Some s), [])"
    using run ok setP' lenP' m by (rule try_fields_rerun)
  then have "find_loop (e # P') [] [] = (Inr ([s], []), [])"
    using found(2) by simp
  then show ?thesis
    by (simp add: find_in_list_def sorted_names)
qed

section \<open>When the detector returns\<close>

lemma try_fields_returns:
  assumes "\<forall>i \<in> set indices. field_number c (nat i) + int (length E) < sys_maxint"
  shows "\<exists>r E'. try_fields c indices E = (Inr r, E')"
  using assms
proof (induction indices)
  case Nil
  then show ?case by simp
next
  case (Cons i indices)
  let ?k = "nat i"
  have "field_number c ?k + int (length E) < sys_maxint"
    using Cons.prems by simp
  then have fits: "fits_long (field_number c ?k + int (length E) + 1)"
    using field_number_nonneg [of c ?k] by (simp add: fits_long_def)
  obtain E2 f l where tf: "try_field c ?k E = (E2, f, l)"
    by (cases "try_field c ?k E") auto
  note unfold = try_fields_Cons [OF fits tf, of indices]
  show ?case
  proof (cases "f = l")
    case True
    then have "E2 = E"
      using try_field_none [OF tf] by simp
    then have "try_fields c (i # indices) E = try_fields c indices E"
      unfolding unfold using True by simp
    then show ?thesis
      using Cons.IH Cons.prems by simp
  next
    case False
    then show ?thesis
      unfolding unfold by simp
  qed
qed

lemma try_entry_returns:
  assumes "small_numbers n entry" and "length entries \<le> n"
  shows "\<exists>r E'. try_entry entry entries = (Inr r, E')"
proof (rule try_fields_returns, rule ballI)
  fix i
  assume "i \<in> set (py_range (int (length (NUMBER_PATTERN_split entry)) - 2) 0 (- 2))"
  then have i: "0 < i" "i \<le> int (length (NUMBER_PATTERN_split entry)) - 2"
    "even (int (length (NUMBER_PATTERN_split entry)) - 2 - i)"
    using py_range_down2 by blast+
  have "odd (int (length (NUMBER_PATTERN_split entry)))"
    using fields_ok_split [of entry] by (simp add: fields_ok_def)
  then have "odd i"
    using i(3) by simp
  then have "odd (nat i)"
    using i(1) by (simp add: even_nat_iff)
  moreover have "nat i < length (NUMBER_PATTERN_split entry)"
    using i by linarith
  ultimately have "int_of_digits (NUMBER_PATTERN_split entry ! nat i) + int n < sys_maxint"
    using assms(1) by (simp add: small_numbers_def)
  then show "field_number (NUMBER_PATTERN_split entry) (nat i) + int (length entries) < sys_maxint"
    using assms(2) by (simp add: field_number_def)
qed

lemma find_loop_returns:
  assumes "\<forall>e \<in> set E. small_numbers n e" and "length E \<le> n"
  shows "\<exists>s' o'. find_loop E s0 o0 = (Inr (s', o'), [])"
  using assms
proof (induction "length E" arbitrary: E s0 o0 rule: less_induct)
  case less
  show ?case
  proof (cases E)
    case Nil
    then show ?thesis by simp
  next
    case (Cons entry entries)
    have small: "small_numbers n entry" and len: "length entries \<le> n"
      using less.prems Cons by simp_all
    obtain r E1 where run: "try_entry entry entries = (Inr r, E1)"
      using try_entry_returns [OF small len] by blast
    have shorter: "length E1 < length E"
      using try_fields_length [of "NUMBER_PATTERN_split entry" _ entries] run Cons
      by (metis le_imp_less_Suc length_Cons snd_conv)
    have sub: "\<forall>e \<in> set E1. small_numbers n e"
    proof (cases r)
      case None
      then have "E1 = entries"
        using run try_entry_none by blast
      then show ?thesis
        using less.prems(1) Cons by simp
    next
      case (Some s)
      then have "mset (entry # entries) = mset E1 + mset (filenames s)"
        using run try_entry_found by blast
      then have "set E1 \<subseteq> set (entry # entries)"
        by (metis mset_subset_eq_add_left set_mset_mono set_mset_mset)
      then show ?thesis
        using less.prems(1) Cons by blast
    qed
    have len1: "length E1 \<le> n"
      using shorter less.prems(2) by simp
    show ?thesis
    proof (cases r)
      case None
      have "\<exists>s' o'. find_loop E1 s0 (o0 @ [entry]) = (Inr (s', o'), [])"
        using shorter sub len1 by (rule less.hyps)
      then show ?thesis
        using Cons run None by simp
    next
      case (Some s)
      then have nz: "nonzero s = Inr True"
        using run try_entry_found by blast
      have "\<exists>s' o'. find_loop E1 (s0 @ [s]) o0 = (Inr (s', o'), [])"
        using shorter sub len1 by (rule less.hyps)
      then show ?thesis
        using Cons run Some nz by simp
    qed
  qed
qed

lemma find_in_list_returns:
  assumes "\<forall>e \<in> set L. small_numbers (length L) e"
  shows "\<exists>sequences other_files. find_in_list L = (Inr (sequences, other_files), [])"
  unfolding find_in_list_def
  using assms find_loop_returns [of "sort L" "length L" "[]" "[]"] by simp

section \<open>The constructor and the path\<close>

lemma try_fields_path:
  "try_fields c indices E = (Inr (Some s), E') \<Longrightarrow> path s = []"
  by (induction indices arbitrary: E)
     (auto simp: Let_def init_def split: if_splits prod.splits)

lemma find_loop_path:
  assumes "find_loop E s0 o0 = (Inr (s', o'), E')" and "\<forall>q \<in> set s0. path q = []"
  shows "\<forall>q \<in> set s'. path q = []"
proof -
  let ?I = "\<lambda>(E :: string list) (s :: FileSequence list) (ot :: string list).
              \<forall>q \<in> set s. path q = []"
  have "?I [] s' o' \<and> E' = []"
  proof (rule find_loop_invariant [where I = ?I, OF assms(1)])
    show "?I E s0 o0"
      by (rule assms(2))
  next
    fix entry entries s ot E1 q
    assume "?I (entry # entries) s ot" and "try_entry entry entries = (Inr (Some q), E1)"
    then show "?I E1 (s @ [q]) ot"
      using try_fields_path [of "NUMBER_PATTERN_split entry" _ entries q E1] by simp
  qed
  then show ?thesis ..
qed

text \<open>
  Claim C10. The constructor discards its \<open>path\<close> argument: whatever is passed, the path
  of the constructed object is the empty string. A non-empty path arises only by
  assignment after construction: the sequences \<^verbatim>\<open>find_in_list\<close> returns all have the empty
  path, and \<^verbatim>\<open>find\<close> assigns its search path to each sequence it returns.
\<close>

theorem init_discards_path:
  "path (init path_arg head_arg tail_arg first_arg last_arg padding_arg) = ''''
   \<and> (find_in_list entries = (Inr (sequences, other_files), entries')
        \<longrightarrow> (\<forall>s \<in> set sequences. path s = ''''))
   \<and> (find_seqs listdir search_path = Inr (found, rest)
        \<longrightarrow> (\<forall>s \<in> set found. path s = search_path))"
proof (intro conjI impI)
  show "path (init path_arg head_arg tail_arg first_arg last_arg padding_arg) = ''''"
    by (simp add: init_def)
next
  assume "find_in_list entries = (Inr (sequences, other_files), entries')"
  then show "\<forall>s \<in> set sequences. path s = ''''"
    unfolding find_in_list_def using find_loop_path [of "sort entries" "[]" "[]"] by simp
next
  assume "find_seqs listdir search_path = Inr (found, rest)"
  then show "\<forall>s \<in> set found. path s = search_path"
    by (auto simp: find_seqs_def split: sum.splits prod.splits)
qed

theorem init_discards_path_witness:
  "path (init ''/stuff'' ''a'' ''.ext'' 1 2 0) = ''''
   \<and> path (init '''' ''a'' ''.ext'' 1 2 0) = ''''
   \<and> path ((init '''' ''a'' ''.ext'' 1 2 0)\<lparr>path := ''/stuff''\<rparr>) = ''/stuff''"
proof -
  have 1: "find_in_list [''a1.ext'', ''a2.ext'']
           = (Inr ([init '''' ''a'' ''.ext'' 1 2 0], []), [])"
    by code_simp
  have 2: "find_seqs (\<lambda>d. Inr [''a1.ext'', ''a2.ext'']) ''/stuff''
           = Inr ([(init '''' ''a'' ''.ext'' 1 2 0)\<lparr>path := ''/stuff''\<rparr>], [])"
    by code_simp
  show ?thesis
    using init_discards_path [of "''/stuff''" "''a''" "''.ext''" 1 2 0 "[''a1.ext'', ''a2.ext'']"
        "[init '''' ''a'' ''.ext'' 1 2 0]" "[]" "[]" "\<lambda>d. Inr [''a1.ext'', ''a2.ext'']"
        "''/stuff''" "[(init '''' ''a'' ''.ext'' 1 2 0)\<lparr>path := ''/stuff''\<rparr>]" "[]"] 1 2
    by simp
qed

section \<open>Indexed access\<close>




section \<open>Template rendering\<close>

lemma str_format_plain_prefix:
  "plain pre \<Longrightarrow>
   str_format (pre @ t) vs = (case str_format t vs of Inl e \<Rightarrow> Inl e | Inr r \<Rightarrow> Inr (pre @ r))"
  by (induction pre) (auto simp: plain_def split: sum.splits)

lemma str_format_plain: "plain t \<Longrightarrow> str_format t vs = Inr t"
  using str_format_plain_prefix [of t "[]" vs] by simp

lemma padchars_value:
  "map_of (format_values self n [c]) ''padchars''
     = Some (VStr (if 0 < padding self then replicate (nat (padding self)) c else [c]))"
  by (simp add: format_values_def str_mul_def)

lemma lookup_padchars:
  "lookup_field (format_values self n [c]) ''padchars''
     = Inr (if 0 < padding self then replicate (nat (padding self)) c else [c])"
  unfolding lookup_field_def padchars_value by (simp add: is_digit_def)

lemma str_format_padchars_field:
  assumes "plain post"
  shows "str_format (''{padchars}'' @ post) (format_values self n [c])
         = Inr ((if 0 < padding self then replicate (nat (padding self)) c else [c]) @ post)"
proof -
  have "takeWhile (\<lambda>x. x \<noteq> CHR ''}'') (''padchars}'' @ post) = ''padchars''"
    by simp
  moreover have "dropWhile (\<lambda>x. x \<noteq> CHR ''}'') (''padchars}'' @ post) = CHR ''}'' # post"
    by simp
  ultimately show ?thesis
    using lookup_padchars [of self n c] str_format_plain [OF assms]
    by (simp add: Let_def del: takeWhile.simps dropWhile.simps)
qed

lemma len_builtin_ok:
  "first self \<le> last_num self \<Longrightarrow> fits_long (len self) \<Longrightarrow> len_builtin self = Inr (len self)"
  by (simp add: len_builtin_def len_def Let_def)

text \<open>
  Claim C8. For every FileSequence (with \<open>first \<le> last\<close>, as the data model has it, and a
  length that is an \<^verbatim>\<open>int\<close>) and pad character \<open>c\<close>, \<^verbatim>\<open>format\<close> puts, in place of
  \<^verbatim>\<open>{padchars}\<close>, \<open>c\<close> repeated \<open>padding\<close> times when \<open>padding > 0\<close> and exactly one \<open>c\<close>
  when \<open>padding = 0\<close> (here between any literal texts \<open>pre\<close> and \<open>post\<close>); with head
  \<^verbatim>\<open>my_sequence.\<close>, tail \<^verbatim>\<open>.ext\<close>, padding 4 and the default pad character, the template
  \<^verbatim>\<open>{head}{padchars}{tail}\<close> gives \<^verbatim>\<open>my_sequence.####.ext\<close>.
\<close>

theorem format_padchars:
  assumes "first self \<le> last_num self" and "fits_long (len self)"
  shows "(plain pre \<and> plain post \<and> 0 < padding self
      \<longrightarrow> format self (Some (pre @ ''{padchars}'' @ post)) (Some [c])
            = Inr (pre @ replicate (nat (padding self)) c @ post))
   \<and> (plain pre \<and> plain post \<and> padding self = 0
      \<longrightarrow> format self (Some (pre @ ''{padchars}'' @ post)) (Some [c]) = Inr (pre @ [c] @ post))
   \<and> (head self = ''my_sequence.'' \<and> tail self = ''.ext'' \<and> padding self = 4
      \<longrightarrow> format self (Some ''{head}{padchars}{tail}'') None = Inr ''my_sequence.####.ext'')"
proof -
  note n = len_builtin_ok [OF assms]
  let ?n = "len self"
  show ?thesis
  proof (intro conjI impI)
    assume "plain pre \<and> plain post \<and> 0 < padding self"
    then show "format self (Some (pre @ ''{padchars}'' @ post)) (Some [c])
               = Inr (pre @ replicate (nat (padding self)) c @ post)"
      using str_format_plain_prefix [of pre "''{padchars}'' @ post" "format_values self ?n [c]"]
        str_format_padchars_field [of post self ?n c] n
      by (simp add: format_def)
  next
    assume "plain pre \<and> plain post \<and> padding self = 0"
    then show "format self (Some (pre @ ''{padchars}'' @ post)) (Some [c]) = Inr (pre @ [c] @ post)"
      using str_format_plain_prefix [of pre "''{padchars}'' @ post" "format_values self ?n [c]"]
        str_format_padchars_field [of post self ?n c] n
      by (simp add: format_def)
  next
    assume a: "head self = ''my_sequence.'' \<and> tail self = ''.ext'' \<and> padding self = 4"
    have h: "lookup_field (format_values self ?n ''#'') ''head'' = Inr ''my_sequence.''"
      using a by (simp add: lookup_field_def format_values_def is_digit_def)
    have t: "lookup_field (format_values self ?n ''#'') ''tail'' = Inr ''.ext''"
      using a by (simp add: lookup_field_def format_values_def is_digit_def)
    have p: "str_format ''{padchars}{tail}'' (format_values self ?n ''#'') = Inr ''####.ext''"
      using a t lookup_padchars [of self ?n "CHR ''#''"]
      by (simp add: Let_def eval_nat_numeral)
    show "format self (Some ''{head}{padchars}{tail}'') None = Inr ''my_sequence.####.ext''"
      using h p n by (simp add: format_def default_padchar_def Let_def)
  qed
qed

theorem format_padchars_witness:
  "format (init '''' ''a.'' ''.ext'' 1 5 3) (Some ''x_{padchars}_y'') (Some ''@'') = Inr ''x_@@@_y''
   \<and> format (init '''' ''a.'' ''.ext'' 1 5 0) (Some ''x_{padchars}_y'') (Some ''@'') = Inr ''x_@_y''
   \<and> format (init '''' ''my_sequence.'' ''.ext'' 1 5 4) (Some ''{head}{padchars}{tail}'') None
       = Inr ''my_sequence.####.ext''"
proof -
  have pl: "plain ''x_''" "plain ''_y''"
    by (simp_all add: plain_def)
  have ok: "first (init '''' h t 1 5 p) \<le> last_num (init '''' h t 1 5 p)"
    "fits_long (len (init '''' h t 1 5 p))" for h t p
    by (simp_all add: init_def len_def fits_long_def sys_maxint_def)
  show ?thesis
    using format_padchars [OF ok, of "''x_''" "''_y''" "''a.''" "''.ext''" 3 "CHR ''@''"]
      format_padchars [OF ok, of "''x_''" "''_y''" "''a.''" "''.ext''" 0 "CHR ''@''"]
      format_padchars [OF ok, of "''x_''" "''_y''" "''my_sequence.''" "''.ext''" 4 "CHR ''@''"]
      pl
    by (simp add: init_def eval_nat_numeral)
qed

section \<open>Concrete runs of the detector\<close>

text \<open>
  Claim C3. On \<^verbatim>\<open>["0998", "0999", "1000"]\<close> the detector returns one sequence, with empty
  head and tail, first 998, last 1000 and padding 4, and no other files: the sorted list
  starts with the padded names, so \<^verbatim>\<open>0998\<close> is popped first and fixes the padding. The
  same holds when the names are given in another order.
\<close>

theorem padding_preference:
  "find_in_list [''0998'', ''0999'', ''1000'']
     = (Inr ([\<lparr>path = '''', head = '''', tail = '''', first = 998, last_num = 1000, padding = 4\<rparr>],
             []), [])
   \<and> sort [''1000'', ''0999'', ''0998''] = [''0998'', ''0999'', ''1000'']
   \<and> find_in_list [''1000'', ''0999'', ''0998'']
     = (Inr ([\<lparr>path = '''', head = '''', tail = '''', first = 998, last_num = 1000, padding = 4\<rparr>],
             []), [])"
  by code_simp

text \<open>
  Claim C9 says that the detector has no failure path on a list of strings. The loop does
  end on every input (\<open>find_loop\<close> is a total function), and it returns a result whenever
  the numbers in the names leave room below \<^verbatim>\<open>sys.maxint\<close> (\<open>find_in_list_returns\<close>). But a
  digit run whose value does not fit a C long makes \<^verbatim>\<open>xrange\<close> raise OverflowError: the
  theorem runs the detector on such a name.
\<close>

theorem find_in_list_overflow:
  "find_in_list [''a99999999999999999999''] = (Inl OverflowError, [])"
  by code_simp

section \<open>The caller's list\<close>

text \<open>
  Claim C4 says that the list passed to the detector is the same after the call. It is
  not: \<^verbatim>\<open>entries.sort()\<close>, \<^verbatim>\<open>entries.pop(0)\<close> and \<^verbatim>\<open>entries.remove\<close> work on the caller's list.
\<close>

theorem find_in_list_consumes_counterexample:
  "snd (find_in_list [''b'', ''a'']) \<noteq> [''b'', ''a'']"
  by code_simp

text \<open>
  Claim C4, amended. The detector works on the caller's list itself: whenever
  \<^verbatim>\<open>find_in_list\<close> returns a result, the list it was given is empty.
\<close>

theorem find_in_list_consumes:
  "find_in_list L = (Inr (sequences, other_files), L') \<Longrightarrow> L' = []"
  unfolding find_in_list_def
  using find_loop_invariant [where I = "\<lambda>E s ot. True" and E = "sort L" and ?s0.0 = "[]" and ?o0.0 = "[]"]
  by simp

theorem find_in_list_consumes_witness:
  "snd (find_in_list [''b'', ''a'']) = []"
proof -
  have "find_in_list [''b'', ''a''] = (Inr ([], [''a'', ''b'']), snd (find_in_list [''b'', ''a'']))"
    by code_simp
  then show ?thesis
    by (rule find_in_list_consumes)
qed

section \<open>File names\<close>

text \<open>
  Claim C6. For every FileSequence and every integer \<open>number\<close>, \<^verbatim>\<open>filename\<close> returns
  \<open>head + zeroPad number padding + tail\<close> exactly when \<open>first \<le> number \<le> last\<close>, and fails
  with IndexError otherwise. \<open>zeroPad\<close> fills with leading zeros up to the width, leaves a
  number whose decimal form is at least that long as it is (nothing is cut), and is the
  minimal decimal form for the width 0.
\<close>

theorem filename_contract:
  "filename self number =
     (if first self \<le> number \<and> number \<le> last_num self
      then Inr (head self @ zeroPad number (padding self) @ tail self)
      else Inl IndexError)
   \<and> length (zeroPad number width) = max (nat width) (length (str_int number))
   \<and> (width \<le> int (length (str_int number)) \<longrightarrow> zeroPad number width = str_int number)
   \<and> (0 \<le> number \<longrightarrow>
        zeroPad number width
          = replicate (nat width - length (str_int number)) (CHR ''0'') @ str_int number)
   \<and> zeroPad number 0 = str_int number"
proof (intro conjI impI)
  show "filename self number =
     (if first self \<le> number \<and> number \<le> last_num self
      then Inr (head self @ zeroPad number (padding self) @ tail self)
      else Inl IndexError)"
    by (simp add: filename_def zfill_str_int)
next
  show "length (zeroPad number width) = max (nat width) (length (str_int number))"
    by (auto simp: zeroPad_def str_int_def abs_if Let_def)
next
  assume "width \<le> int (length (str_int number))"
  then show "zeroPad number width = str_int number"
    by (auto simp: zeroPad_def str_int_def abs_if Let_def)
next
  assume "0 \<le> number"
  then show "zeroPad number width
          = replicate (nat width - length (str_int number)) (CHR ''0'') @ str_int number"
    by (simp add: zeroPad_def str_int_def Let_def)
next
  show "zeroPad number 0 = str_int number"
    by (simp add: zeroPad_def str_int_def abs_if Let_def)
qed

theorem filename_contract_witness:
  "filename (init '''' ''a.'' ''.ext'' 1 200 2) 5 = Inr ''a.05.ext''
   \<and> filename (init '''' ''a.'' ''.ext'' 1 200 2) 123 = Inr ''a.123.ext''
   \<and> filename (init '''' ''a.'' ''.ext'' 1 200 0) 7 = Inr ''a.7.ext''
   \<and> filename (init '''' ''a.'' ''.ext'' 1 200 2) 0 = Inl IndexError
   \<and> filename (init '''' ''a.'' ''.ext'' 1 200 2) 201 = Inl IndexError"
proof -
  have e1: "zfill (str_int 5) 2 = ''05''"
    by code_simp
  have e2: "zfill (str_int 123) 2 = ''123''"
    by code_simp
  have e3: "zfill (str_int 7) 0 = ''7''"
    by code_simp
  have z1: "zeroPad 5 2 = ''05''"
    using e1 by (simp add: zfill_str_int)
  have z2: "zeroPad 123 2 = ''123''"
    using e2 by (simp add: zfill_str_int)
  have z3: "zeroPad 7 0 = ''7''"
    using e3 by (simp add: zfill_str_int)
  note c = filename_contract [THEN conjunct1]
  show ?thesis
    using c [of "init '''' ''a.'' ''.ext'' 1 200 2" 5]
      c [of "init '''' ''a.'' ''.ext'' 1 200 2" 123]
      c [of "init '''' ''a.'' ''.ext'' 1 200 0" 7]
      c [of "init '''' ''a.'' ''.ext'' 1 200 2" 0]
      c [of "init '''' ''a.'' ''.ext'' 1 200 2" 201] z1 z2 z3
    by (simp add: init_def)
qed

section \<open>The partition\<close>

text \<open>
  Claim C1. Whenever \<^verbatim>\<open>find_in_list\<close> returns, every sequence can be enumerated, and the
  names enumerated by the sequences together with the other files are the input names,
  each as often as it was given. For a list of distinct names this means: every input
  name is in exactly one place, once in the enumeration of one sequence or once among the
  other files, and no name is enumerated that was not given.
\<close>

theorem partition_complete:
  assumes "find_in_list L = (Inr (sequences, other_files), L')"
  shows "\<exists>names. collect (map iter sequences) = Inr names
           \<and> mset (concat names @ other_files) = mset L
           \<and> (distinct L \<longrightarrow> distinct (concat names @ other_files)
                              \<and> set (concat names @ other_files) = set L)"
proof -
  have m: "mset (concat (map filenames sequences) @ other_files) = mset L"
    using find_loop_partition [of "sort L" "[]" "[]" sequences other_files L'] assms
    by (simp add: find_in_list_def)
  then have "distinct L \<longrightarrow> distinct (concat (map filenames sequences) @ other_files)
                              \<and> set (concat (map filenames sequences) @ other_files) = set L"
    using mset_eq_imp_distinct_iff [OF m] mset_eq_setD [OF m] by simp
  then show ?thesis
    using m collect_iter [of sequences] by blast
qed

theorem partition_complete_witness:
  "\<exists>names. collect (map iter [init '''' ''a'' '''' 1 2 0]) = Inr names
      \<and> mset (concat names @ [''b'']) = mset [''a2'', ''b'', ''a1'']
      \<and> distinct (concat names @ [''b''])
      \<and> set (concat names @ [''b'']) = set [''a2'', ''b'', ''a1'']"
proof -
  have run: "find_in_list [''a2'', ''b'', ''a1''] = (Inr ([init '''' ''a'' '''' 1 2 0], [''b'']), [])"
    by code_simp
  have d: "distinct [''a2'', ''b'', ''a1'']"
    by simp
  show ?thesis
    using partition_complete [OF run] d by blast
qed

text \<open>
  Claim C5. Every sequence \<^verbatim>\<open>find_in_list\<close> returns has \<open>first < last\<close>, so at least two
  files; an entry popped by the loop for which no numeric field finds a neighbour, in
  either direction, ends among the other files; and \<^verbatim>\<open>["frame5.png"]\<close> alone gives no
  sequence and the other file \<^verbatim>\<open>frame5.png\<close>.
\<close>

theorem no_singletons:
  "(find_in_list L = (Inr (sequences, other_files), L')
      \<longrightarrow> (\<forall>s \<in> set sequences. first s < last_num s \<and> 2 \<le> len s))
   \<and> (try_entry entry entries = (Inr None, E1)
       \<and> find_loop (entry # entries) seqs0 others0 = (Inr (seqs1, others1), E2)
      \<longrightarrow> entry \<in> set others1)
   \<and> find_in_list [''frame5.png''] = (Inr ([], [''frame5.png'']), [])"
proof (intro conjI impI)
  assume "find_in_list L = (Inr (sequences, other_files), L')"
  then have "\<forall>s \<in> set sequences. first s < last_num s"
    using find_loop_proper [of "sort L" "[]" "[]" sequences other_files L']
    by (simp add: find_in_list_def)
  then show "\<forall>s \<in> set sequences. first s < last_num s \<and> 2 \<le> len s"
    by (auto simp: len_def)
next
  assume a: "try_entry entry entries = (Inr None, E1)
       \<and> find_loop (entry # entries) seqs0 others0 = (Inr (seqs1, others1), E2)"
  have t: "try_entry entry entries = (Inr None, E1)"
    using a by (rule conjunct1)
  have f: "find_loop (entry # entries) seqs0 others0 = (Inr (seqs1, others1), E2)"
    using a by (rule conjunct2)
  have "find_loop E1 seqs0 (others0 @ [entry]) = (Inr (seqs1, others1), E2)"
    using f by (simp add: t)
  then have "set (others0 @ [entry]) \<subseteq> set others1"
    by (rule find_loop_others)
  then show "entry \<in> set others1"
    by simp
next
  show "find_in_list [''frame5.png''] = (Inr ([], [''frame5.png'']), [])"
    by code_simp
qed

theorem no_singletons_witness:
  "first (init '''' ''a'' '''' 1 2 0) < last_num (init '''' ''a'' '''' 1 2 0)
   \<and> 2 \<le> len (init '''' ''a'' '''' 1 2 0)
   \<and> ''b'' \<in> set [''b'']
   \<and> find_in_list [''frame5.png''] = (Inr ([], [''frame5.png'']), [])"
proof -
  have run: "find_in_list [''a2'', ''b'', ''a1''] = (Inr ([init '''' ''a'' '''' 1 2 0], [''b'']), [])"
    by code_simp
  have t: "try_entry ''b'' [] = (Inr None, [])"
    by code_simp
  have f: "find_loop [''b''] [init '''' ''a'' '''' 1 2 0] []
           = (Inr ([init '''' ''a'' '''' 1 2 0], [''b'']), [])"
    by code_simp
  show ?thesis
    using no_singletons [of "[''a2'', ''b'', ''a1'']" "[init '''' ''a'' '''' 1 2 0]" "[''b'']" "[]"
        "''b''" "[]" "[]" "[init '''' ''a'' '''' 1 2 0]" "[]" "[init '''' ''a'' '''' 1 2 0]"
        "[''b'']" "[]"] run t f
    by simp
qed

section \<open>Round trip\<close>

text \<open>
  Claim C2. For every sequence \<open>s\<close> that \<^verbatim>\<open>find_in_list\<close> returns on some input, the
  detector run on exactly the names \<open>s\<close> enumerates returns one sequence and no other
  file, and that sequence is \<open>s\<close> itself: the same head, tail, first, last and padding.
\<close>

theorem round_trip:
  assumes "find_in_list L = (Inr (sequences, other_files), L')" and "s \<in> set sequences"
  shows "\<exists>names. iter s = Inr names \<and> find_in_list names = (Inr ([s], []), [])"
proof -
  have "\<forall>q \<in> set sequences. detected q"
    using find_loop_detected [of "sort L" "[]" "[]" sequences other_files L'] assms(1)
    by (simp add: find_in_list_def)
  then have "detected s"
    using assms(2) by simp
  then have "find_in_list (filenames s) = (Inr ([s], []), [])"
    by (rule detected_rerun)
  then show ?thesis
    using iter_filenames [of s] by blast
qed

theorem round_trip_witness:
  "iter (init '''' ''a'' '''' 1 2 0) = Inr [''a1'', ''a2'']
   \<and> find_in_list [''a1'', ''a2''] = (Inr ([init '''' ''a'' '''' 1 2 0], []), [])"
proof -
  have run: "find_in_list [''a2'', ''b'', ''a1''] = (Inr ([init '''' ''a'' '''' 1 2 0], [''b'']), [])"
    by code_simp
  have names: "iter (init '''' ''a'' '''' 1 2 0) = Inr [''a1'', ''a2'']"
    by code_simp
  have "init '''' ''a'' '''' 1 2 0 \<in> set [init '''' ''a'' '''' 1 2 0]"
    by simp
  then show ?thesis
    using round_trip [OF run] names by auto
qed

end
